theory Spec2Isabelle
  imports Complex_Main
begin

section \<open>Numbers\<close>

text \<open>
  The program computes with ECMAScript numbers. A finite number is modelled by the real
  it denotes, so rounding, overflow to Infinity and the sign of zero are idealised away;
  the three special values are kept, because the program divides by weights that can be
  zero: \<open>x / 0\<close> is an infinity and \<open>0 / 0\<close> is \<open>NaN\<close>, every comparison with
  \<open>NaN\<close> is false, and \<open>Math.max\<close> and \<open>Math.min\<close> return \<open>NaN\<close> as soon as one
  argument is \<open>NaN\<close>. A read of a missing array element (\<open>undefined\<close>) behaves like
  \<open>NaN\<close> in arithmetic and in comparisons and is modelled by it.
\<close>

datatype number = NaN | NInf | Fin real | PInf

fun nneg :: "number \<Rightarrow> number" where
  "nneg NaN = NaN"
| "nneg NInf = PInf"
| "nneg PInf = NInf"
| "nneg (Fin x) = Fin (- x)"

fun nadd :: "number \<Rightarrow> number \<Rightarrow> number" where
  "nadd (Fin x) (Fin y) = Fin (x + y)"
| "nadd NaN _ = NaN"
| "nadd _ NaN = NaN"
| "nadd PInf NInf = NaN"
| "nadd NInf PInf = NaN"
| "nadd PInf _ = PInf"
| "nadd _ PInf = PInf"
| "nadd NInf _ = NInf"
| "nadd _ NInf = NInf"

definition nsub :: "number \<Rightarrow> number \<Rightarrow> number" where
  "nsub a b = nadd a (nneg b)"

fun nmul :: "number \<Rightarrow> number \<Rightarrow> number" where
  "nmul (Fin x) (Fin y) = Fin (x * y)"
| "nmul NaN _ = NaN"
| "nmul _ NaN = NaN"
| "nmul PInf (Fin y) = (if y = 0 then NaN else if 0 < y then PInf else NInf)"
| "nmul NInf (Fin y) = (if y = 0 then NaN else if 0 < y then NInf else PInf)"
| "nmul (Fin x) PInf = (if x = 0 then NaN else if 0 < x then PInf else NInf)"
| "nmul (Fin x) NInf = (if x = 0 then NaN else if 0 < x then NInf else PInf)"
| "nmul PInf PInf = PInf"
| "nmul NInf NInf = PInf"
| "nmul PInf NInf = NInf"
| "nmul NInf PInf = NInf"

fun ndiv :: "number \<Rightarrow> number \<Rightarrow> number" where
  "ndiv (Fin x) (Fin y) =
     (if y = 0 then (if x = 0 then NaN else if 0 < x then PInf else NInf) else Fin (x / y))"
| "ndiv NaN _ = NaN"
| "ndiv _ NaN = NaN"
| "ndiv (Fin x) _ = Fin 0"
| "ndiv PInf (Fin y) = (if 0 \<le> y then PInf else NInf)"
| "ndiv NInf (Fin y) = (if 0 \<le> y then NInf else PInf)"
| "ndiv _ _ = NaN"

text \<open>\<open>a < b\<close> and \<open>a <= b\<close> of the source.\<close>

fun nlt :: "number \<Rightarrow> number \<Rightarrow> bool" where
  "nlt (Fin x) (Fin y) = (x < y)"
| "nlt NaN _ = False"
| "nlt _ NaN = False"
| "nlt NInf NInf = False"
| "nlt NInf _ = True"
| "nlt _ NInf = False"
| "nlt PInf _ = False"
| "nlt _ PInf = True"

fun nle :: "number \<Rightarrow> number \<Rightarrow> bool" where
  "nle (Fin x) (Fin y) = (x \<le> y)"
| "nle NaN _ = False"
| "nle _ NaN = False"
| "nle NInf _ = True"
| "nle _ PInf = True"
| "nle PInf _ = False"
| "nle _ NInf = False"

text \<open>\<open>Math.max(a, b)\<close> and \<open>Math.min(a, b)\<close>.\<close>

fun nmax :: "number \<Rightarrow> number \<Rightarrow> number" where
  "nmax NaN _ = NaN"
| "nmax _ NaN = NaN"
| "nmax a b = (if nlt a b then b else a)"

fun nmin :: "number \<Rightarrow> number \<Rightarrow> number" where
  "nmin NaN _ = NaN"
| "nmin _ NaN = NaN"
| "nmin a b = (if nlt b a then b else a)"

text \<open>
  \<open>Array.prototype.sort(cmp)\<close>: the element \<open>x\<close> goes behind \<open>y\<close> when
  \<open>cmp(x, y) > 0\<close>. The sort is stable; for a comparator that is a consistent order
  (no key is \<open>NaN\<close>) the result is the one of this insertion sort.
\<close>

fun insert_cmp :: "('a \<Rightarrow> 'a \<Rightarrow> number) \<Rightarrow> 'a \<Rightarrow> 'a list \<Rightarrow> 'a list" where
  "insert_cmp cmp x [] = [x]"
| "insert_cmp cmp x (y # ys) =
     (if nlt (Fin 0) (cmp x y) then y # insert_cmp cmp x ys else x # y # ys)"

fun sort_cmp :: "('a \<Rightarrow> 'a \<Rightarrow> number) \<Rightarrow> 'a list \<Rightarrow> 'a list" where
  "sort_cmp cmp [] = []"
| "sort_cmp cmp (x # xs) = insert_cmp cmp x (sort_cmp cmp xs)"

section \<open>Errors, parameters and the instance\<close>

datatype error =
    InvalidMinClusterSize
  | InvalidMinSamples
  | TypeError
  | RangeError
  | ParentClusterNotFound
  | SplitComponents
  | FindOutOfRange

text \<open>
  \<open>InvalidMinClusterSize\<close> and \<open>InvalidMinSamples\<close> are the two errors of the
  constructor; \<open>TypeError\<close> is the engine's error for reading a property of
  \<open>undefined\<close>; \<open>RangeError\<close> is the engine's error for an exhausted call stack;
  the last three are the errors thrown by \<open>buildClusterHierarchy\<close> and \<open>find\<close>.
\<close>

text \<open>
  The three errors that \<open>buildClusterHierarchy\<close> and \<open>find\<close> throw when an invariant of
  the builder is broken.
\<close>

definition internalError :: "error \<Rightarrow> bool" where
  "internalError e \<longleftrightarrow> e = ParentClusterNotFound \<or> e = FindOutOfRange \<or> e = SplitComponents"

text \<open>
  An absent option is \<open>None\<close>; the defaults of the destructuring pattern apply to
  it. \<open>debugMode\<close> only switches logging and is left out, as are the options the
  constructor never reads.
\<close>

record HDBSCANParams =
  minClusterSize_opt :: "int option"
  minSamples_opt :: "int option"
  shouldSkipRootCluster_opt :: "bool option"

type_synonym edge = "nat \<times> nat \<times> number"

text \<open>
  The fields of the instance that the computation reads. \<open>clusterMap\<close> and
  \<open>mutualReachabilityDistance\<close> are only written, \<open>debugMode\<close> only logs. The
  public arrays are named \<open>labels_fld\<close> and \<open>probabilities_fld\<close>.
\<close>

record HDBSCAN =
  minClusterSize :: int
  minSamples :: int
  labels_fld :: "int list"
  probabilities_fld :: "number list"
  nextClusterId :: nat
  sortedEdges :: "edge list"
  shouldSkipRootCluster :: bool

definition constructor :: "HDBSCANParams \<Rightarrow> error + HDBSCAN" where
  "constructor p =
     (let mcs = (case minClusterSize_opt p of None \<Rightarrow> 5 | Some v \<Rightarrow> v);
          ms = (case minSamples_opt p of None \<Rightarrow> mcs | Some v \<Rightarrow> v);
          skip = (case shouldSkipRootCluster_opt p of None \<Rightarrow> True | Some b \<Rightarrow> b)
      in if mcs \<le> 0 then Inl InvalidMinClusterSize
         else if ms \<le> 0 then Inl InvalidMinSamples
         else Inr \<lparr> minClusterSize = mcs,
                    minSamples = (if ms \<noteq> 0 then ms else mcs),
                    labels_fld = [],
                    probabilities_fld = [],
                    nextClusterId = 0,
                    sortedEdges = [],
                    shouldSkipRootCluster = skip \<rparr>)"

section \<open>Step 1: mutual reachability\<close>

text \<open>\<open>b[index]\<close> for a point \<open>b\<close>: \<open>undefined\<close> beyond its length.\<close>

definition coord :: "real list \<Rightarrow> nat \<Rightarrow> number" where
  "coord b index = (if index < length b then Fin (b ! index) else NaN)"

definition euclideanDistance :: "real list \<Rightarrow> real list \<Rightarrow> number" where
  "euclideanDistance a b =
     foldl (\<lambda>acc (curr, index). nadd acc (let t = nsub (Fin curr) (coord b index) in nmul t t))
       (Fin 0) (zip a [0..<length a])"

definition pointDistances :: "real list list \<Rightarrow> nat \<Rightarrow> (nat \<times> number) list" where
  "pointDistances data i =
     map (\<lambda>j. (j, euclideanDistance (data ! i) (data ! j)))
       (filter (\<lambda>j. i \<noteq> j) [0..<length data])"

text \<open>
  The core distance of point \<open>i\<close>. The index \<open>Math.min(minSamples - 1, length - 1)\<close>
  is read from the sorted list; outside the list the element is \<open>undefined\<close> and
  reading its \<open>distance\<close> throws.
\<close>

definition coreDistance :: "int \<Rightarrow> real list list \<Rightarrow> nat \<Rightarrow> error + number" where
  "coreDistance ms data i =
     (let pd = sort_cmp (\<lambda>a b. nsub (snd a) (snd b)) (pointDistances data i);
          k = min (ms - 1) (int (length pd) - 1)
      in if 0 \<le> k \<and> k < int (length pd) then Inr (snd (pd ! nat k)) else Inl TypeError)"

fun collect :: "(error + 'a) list \<Rightarrow> error + 'a list" where
  "collect [] = Inr []"
| "collect (Inl e # _) = Inl e"
| "collect (Inr x # rs) = (case collect rs of Inl e \<Rightarrow> Inl e | Inr xs \<Rightarrow> Inr (x # xs))"

definition computeMutualReachabilityDistance ::
  "HDBSCAN \<Rightarrow> real list list \<Rightarrow> error + number list list" where
  "computeMutualReachabilityDistance st data =
     (let n = length data in
      case collect (map (coreDistance (minSamples st) data) [0..<n]) of
        Inl e \<Rightarrow> Inl e
      | Inr coreDistances \<Rightarrow>
          Inr (map (\<lambda>i. map (\<lambda>j.
                 nmax (nmax (euclideanDistance (data ! i) (data ! j)) (coreDistances ! i))
                   (coreDistances ! j)) [0..<n]) [0..<n]))"

section \<open>Step 2: minimum spanning tree\<close>

text \<open>\<open>distances[i][j]\<close>; a missing row or entry is \<open>undefined\<close>.\<close>

definition cell :: "number list list \<Rightarrow> nat \<Rightarrow> nat \<Rightarrow> number" where
  "cell d i j = (if i < length d \<and> j < length (d ! i) then d ! i ! j else NaN)"

text \<open>The scan for the unvisited vertex with the least candidate weight.\<close>

definition findNext :: "nat \<Rightarrow> nat list \<Rightarrow> number list \<Rightarrow> number \<times> nat option" where
  "findNext n visited minEdges =
     foldl (\<lambda>(minDist, nextVertex) i.
              if i \<notin> set visited \<and> nlt (minEdges ! i) minDist
              then (minEdges ! i, Some i) else (minDist, nextVertex))
       (PInf, None) [0..<n]"

text \<open>The update of the candidate weights from the vertex just visited.\<close>

definition relax ::
  "number list list \<Rightarrow> nat \<Rightarrow> nat \<Rightarrow> nat list \<Rightarrow> number list \<times> nat list
     \<Rightarrow> number list \<times> nat list" where
  "relax d n v visited mc =
     foldl (\<lambda>(minEdges, conn) i.
              if i \<notin> set visited \<and> nlt (cell d v i) (minEdges ! i)
              then (minEdges[i := cell d v i], conn[i := v]) else (minEdges, conn))
       mc [0..<n]"

text \<open>
  The \<open>while (visited.size < n)\<close> loop. An iteration that finds no vertex changes
  nothing, so the source loops forever from there: the model returns \<open>None\<close>.
\<close>

function primLoop ::
  "number list list \<Rightarrow> nat \<Rightarrow> nat list \<Rightarrow> number list \<Rightarrow> nat list \<Rightarrow> edge list
     \<Rightarrow> edge list option" where
  "primLoop d n visited minEdges conn edges =
     (if length visited < n then
        (case findNext n visited minEdges of
           (minDist, None) \<Rightarrow> None
         | (minDist, Some v) \<Rightarrow>
             (let visited' = visited @ [v];
                  mc = relax d n v visited' (minEdges, conn)
              in primLoop d n visited' (fst mc) (snd mc) (edges @ [(conn ! v, v, minDist)])))
      else Some edges)"
  by pat_completeness auto
termination
  by (relation "measure (\<lambda>(d, n, visited, minEdges, conn, edges). n - length visited)") auto

text \<open>
  \<open>minEdgeConnections\<close> starts as \<open>-1\<close> everywhere and is set to \<open>0\<close> for every
  vertex but \<open>0\<close>; entry \<open>0\<close> is never read, since vertex \<open>0\<close> is visited from the
  outset, and holds \<open>0\<close> here.
\<close>

definition buildMinimumSpanningTree :: "number list list \<Rightarrow> edge list option" where
  "buildMinimumSpanningTree distances =
     (let n = length distances in
      primLoop distances n [0]
        (map (\<lambda>i. if i = 0 then PInf else cell distances 0 i) [0..<n])
        (replicate n 0) [])"

section \<open>Step 3: cluster hierarchy\<close>

text \<open>
  A cluster object. The source links a parent to its children by object reference and
  later mutates the objects; clusters are identified by their \<open>id\<close>, which is unique
  in an instance, so a child link is the id of the child and the hierarchy is the list
  of the objects. \<open>id\<close> and \<open>size\<close> are named \<open>cluster_id\<close> and \<open>cluster_size\<close>.
\<close>

record Cluster =
  cluster_id :: nat
  children :: "nat list"
  distance :: number
  cluster_size :: nat
  stability :: "number option"
  maxEdgeWeight :: number
  birthDistance :: number
  leaveEdgeWeight :: number
  minReachabilityMap :: "(nat \<times> number) list"
  leftChild :: "nat option"
  rightChild :: "nat option"

definition getMinReachability :: "nat \<Rightarrow> nat list \<Rightarrow> edge list \<Rightarrow> number" where
  "getMinReachability point clusterPoints es =
     (let relevantEdges =
            filter (\<lambda>(s, d, w). (s = point \<or> d = point) \<and> s \<in> set clusterPoints \<and> d \<in> set clusterPoints) es
      in foldl (\<lambda>m (s, d, w). if s = point \<or> d = point then nmin m w else m) PInf relevantEdges)"

definition minReach :: "nat list \<Rightarrow> edge list \<Rightarrow> nat \<Rightarrow> number" where
  "minReach points es p =
     (let m = getMinReachability p points es in if m = PInf then Fin 0 else m)"

definition createCluster ::
  "HDBSCAN \<Rightarrow> nat list \<Rightarrow> number \<Rightarrow> edge list \<Rightarrow> number \<Rightarrow> Cluster \<times> HDBSCAN" where
  "createCluster st points edgeWeight es birth =
     (\<lparr> cluster_id = nextClusterId st,
        children = points,
        distance = edgeWeight,
        cluster_size = length points,
        stability = None,
        maxEdgeWeight = edgeWeight,
        birthDistance = birth,
        leaveEdgeWeight = foldl (\<lambda>l p. nmax l (minReach points es p)) (Fin 0) points,
        minReachabilityMap = map (\<lambda>p. (p, minReach points es p)) points,
        leftChild = None,
        rightChild = None \<rparr>,
      st\<lparr> nextClusterId := nextClusterId st + 1 \<rparr>)"

text \<open>
  \<open>find\<close> with path compression, named \<open>find_uf\<close>. The recursion follows the parent
  links; on an array whose links form a forest its depth is at most the length of the
  array, which is the fuel given at every call. Links that form a cycle make the source
  recurse until the call stack is exhausted, which throws \<open>RangeError\<close>.
\<close>

fun find_uf :: "nat \<Rightarrow> nat \<Rightarrow> nat list \<Rightarrow> error + (nat \<times> nat list)" where
  "find_uf 0 x parent = Inl RangeError"
| "find_uf (Suc fuel) x parent =
     (if x \<ge> length parent then Inl FindOutOfRange
      else if parent ! x \<noteq> x then
        (case find_uf fuel (parent ! x) parent of
           Inl e \<Rightarrow> Inl e
         | Inr (r, parent') \<Rightarrow> Inr (r, parent'[x := r]))
      else Inr (x, parent))"

definition find_top :: "nat \<Rightarrow> nat list \<Rightarrow> error + (nat \<times> nat list)" where
  "find_top x parent = find_uf (length parent) x parent"

text \<open>A \<open>forEach\<close> whose body may throw: the first error ends it.\<close>

fun foldE :: "('a \<Rightarrow> 's \<Rightarrow> error + 's) \<Rightarrow> 'a list \<Rightarrow> 's \<Rightarrow> error + 's" where
  "foldE f [] s = Inr s"
| "foldE f (x # xs) s = (case f x s of Inl e \<Rightarrow> Inl e | Inr s' \<Rightarrow> foldE f xs s')"

definition unionEdge :: "nat list \<Rightarrow> edge \<Rightarrow> nat list \<Rightarrow> error + nat list" where
  "unionEdge points e parent =
     (case e of (s, d, w) \<Rightarrow>
        if s \<in> set points \<and> d \<in> set points then
          (case find_top s parent of
             Inl err \<Rightarrow> Inl err
           | Inr (rootX, p1) \<Rightarrow>
               (case find_top d p1 of
                  Inl err \<Rightarrow> Inl err
                | Inr (rootY, p2) \<Rightarrow>
                    Inr (if rootX \<noteq> rootY then p2[rootY := rootX] else p2)))
        else Inr parent)"

text \<open>
  The \<open>components\<close> map keeps its keys in insertion order: an association list from a
  root to the points found under it.
\<close>

definition addPoint :: "nat \<Rightarrow> nat \<Rightarrow> (nat \<times> nat list) list \<Rightarrow> (nat \<times> nat list) list" where
  "addPoint rootP point comps =
     (if rootP \<in> fst ` set comps
      then map (\<lambda>(r, ps). if r = rootP then (r, ps @ [point]) else (r, ps)) comps
      else comps @ [(rootP, [point])])"

definition groupPoint ::
  "nat \<Rightarrow> nat list \<times> (nat \<times> nat list) list \<Rightarrow> error + (nat list \<times> (nat \<times> nat list) list)" where
  "groupPoint point pc =
     (case find_top point (fst pc) of
        Inl err \<Rightarrow> Inl err
      | Inr (rootP, parent') \<Rightarrow> Inr (parent', addPoint rootP point (snd pc)))"

definition splitClusterAtEdge ::
  "HDBSCAN \<Rightarrow> nat list \<Rightarrow> edge \<Rightarrow> edge list \<Rightarrow> error + nat list list" where
  "splitClusterAtEdge st points removed es =
     (case removed of (removed_s, removed_d, edgeWeight) \<Rightarrow>
        (case foldE (unionEdge points) (filter (\<lambda>(s, d, w). nle w edgeWeight) es)
                [0..<length (sortedEdges st) + 1] of
           Inl err \<Rightarrow> Inl err
         | Inr parent \<Rightarrow>
             (case foldE groupPoint points (parent, []) of
                Inl err \<Rightarrow> Inl err
              | Inr (parent', comps) \<Rightarrow> Inr (map snd comps))))"

text \<open>The search from the newest cluster to the oldest; the result is a position.\<close>

definition findClusterContainingPoints :: "nat list \<Rightarrow> Cluster list \<Rightarrow> nat option" where
  "findClusterContainingPoints points hierarchy =
     List.find (\<lambda>i. list_all (\<lambda>p. p \<in> set (children (hierarchy ! i))) points)
       (rev [0..<length hierarchy])"

text \<open>
  The two components become clusters. A child link is set only for a component with at
  least \<open>minClusterSize\<close> points; both clusters are pushed in any case.
\<close>

definition addChildren ::
  "nat \<Rightarrow> number \<Rightarrow> nat list \<Rightarrow> nat list \<Rightarrow> Cluster list \<times> HDBSCAN \<Rightarrow> Cluster list \<times> HDBSCAN" where
  "addChildren pidx edgeWeight leftPoints rightPoints hs =
     (case hs of (hierarchy, st) \<Rightarrow>
      let isLeftCluster = (minClusterSize st \<le> int (length leftPoints));
          isRightCluster = (minClusterSize st \<le> int (length rightPoints));
          (leftCluster, st1) = createCluster st leftPoints edgeWeight (sortedEdges st) edgeWeight;
          h1 = (if isLeftCluster
                then hierarchy[pidx := (hierarchy ! pidx)\<lparr> leftChild := Some (cluster_id leftCluster) \<rparr>]
                       @ [leftCluster]
                else hierarchy @ [leftCluster\<lparr> stability := Some (Fin 0) \<rparr>]);
          (rightCluster, st2) = createCluster st1 rightPoints edgeWeight (sortedEdges st1) edgeWeight;
          h2 = (if isRightCluster
                then h1[pidx := (h1 ! pidx)\<lparr> rightChild := Some (cluster_id rightCluster) \<rparr>]
                       @ [rightCluster]
                else h1 @ [rightCluster\<lparr> stability := Some (Fin 0) \<rparr>]);
          h3 = (if (isLeftCluster \<and> \<not> isRightCluster) \<or> (\<not> isLeftCluster \<and> isRightCluster)
                then h2[pidx := (h2 ! pidx)\<lparr> stability := Some (Fin 0) \<rparr>] else h2)
      in (h3, st2))"

definition processEdge ::
  "edge list \<Rightarrow> nat \<Rightarrow> Cluster list \<times> HDBSCAN \<Rightarrow> error + (Cluster list \<times> HDBSCAN)" where
  "processEdge sortedE index hs =
     (case hs of (hierarchy, st) \<Rightarrow>
      case sortedE ! index of (src, dst, edgeWeight) \<Rightarrow>
      (case findClusterContainingPoints [src, dst] hierarchy of
         None \<Rightarrow> Inl ParentClusterNotFound
       | Some pidx \<Rightarrow>
           if leftChild (hierarchy ! pidx) \<noteq> None then Inr (hierarchy, st)
           else
             (case splitClusterAtEdge st (children (hierarchy ! pidx)) (sortedE ! index)
                     (drop (index + 1) sortedE) of
                Inl err \<Rightarrow> Inl err
              | Inr components \<Rightarrow>
                  if length components > 2
                     \<or> (length components < 2 \<and> list_all (\<lambda>c. length c = 1) components)
                     \<or> length components = 0 \<or> length components = 2
                  then
                    (if length components = 2
                     then Inr (addChildren pidx edgeWeight (components ! 0) (components ! 1) (hierarchy, st))
                     else Inr (hierarchy, st))
                  else Inl SplitComponents)))"

text \<open>
  The sort is descending by weight. With no edge at all \<open>sortedEdges[0]\<close> is
  \<open>undefined\<close> and reading its weight throws. The root is created from the sorted
  list, the other clusters from the \<open>sortedEdges\<close> field set by \<open>fit\<close>.
\<close>

definition buildClusterHierarchy ::
  "HDBSCAN \<Rightarrow> edge list \<Rightarrow> error + (Cluster list \<times> HDBSCAN)" where
  "buildClusterHierarchy st mst =
     (let n = length mst + 1;
          sortedE = sort_cmp (\<lambda>a b. nsub (snd (snd b)) (snd (snd a))) mst
      in case sortedE of
           [] \<Rightarrow> Inl TypeError
         | e0 # _ \<Rightarrow>
             (let (rootCluster, st1) = createCluster st [0..<n] (snd (snd e0)) sortedE (snd (snd e0))
              in foldE (processEdge sortedE) [0..<length sortedE]
                   ([rootCluster\<lparr> stability := Some (Fin 0) \<rparr>], st1)))"

section \<open>Step 4: condensation\<close>

text \<open>\<open>new Set(cluster.children)\<close>, iterated in insertion order.\<close>

definition getClusterPoints :: "Cluster \<Rightarrow> nat list" where
  "getClusterPoints cluster = rev (remdups (rev (children cluster)))"

definition condenseHierarchy :: "HDBSCAN \<Rightarrow> Cluster list \<Rightarrow> Cluster list" where
  "condenseHierarchy st hierarchy =
     filter (\<lambda>cluster. minClusterSize st \<le> int (length (getClusterPoints cluster))) hierarchy"

section \<open>Step 5: extraction\<close>

definition calculateClusterStability :: "Cluster \<Rightarrow> nat list \<Rightarrow> number" where
  "calculateClusterStability cluster points =
     nadd (Fin 0)
       (nmul (nsub (ndiv (Fin 1) (leaveEdgeWeight cluster)) (ndiv (Fin 1) (birthDistance cluster)))
          (Fin (real (length points))))"

definition calculateMembership :: "nat \<Rightarrow> Cluster \<Rightarrow> number" where
  "calculateMembership point cluster =
     nsub (Fin 1)
       (ndiv (case map_of (minReachabilityMap cluster) point of None \<Rightarrow> NaN | Some m \<Rightarrow> m)
          (maxEdgeWeight cluster))"

definition setStability :: "nat \<Rightarrow> number \<Rightarrow> Cluster list \<Rightarrow> Cluster list" where
  "setStability i s cs = map (\<lambda>c. if cluster_id c = i then c\<lparr> stability := Some s \<rparr> else c) cs"

text \<open>The filter of \<open>processCluster\<close> that finds the child clusters of a cluster.\<close>

definition childClustersOf :: "Cluster list \<Rightarrow> Cluster \<Rightarrow> Cluster list" where
  "childClustersOf condensedHierarchy cluster =
     filter (\<lambda>c. cluster_id c \<noteq> cluster_id cluster
                \<and> nle (distance c) (distance cluster)
                \<and> list_all (\<lambda>p. p \<in> set (children cluster)) (children c))
       condensedHierarchy"

text \<open>
  The state of the walk: the condensed clusters (whose \<open>stability\<close> the walk writes),
  the selected clusters in insertion order and the discarded ids.
\<close>

record walk =
  clusters :: "Cluster list"
  selectedClusters :: "Cluster list"
  discardedClusters :: "nat list"

definition addSelected :: "Cluster \<Rightarrow> Cluster list \<Rightarrow> Cluster list" where
  "addSelected c sel = (if cluster_id c \<in> cluster_id ` set sel then sel else sel @ [c])"

text \<open>
  \<open>processCluster\<close>. A call that does not return at once either selects its cluster
  or discards it before it recurses, and never enters a discarded cluster, so the depth
  of the recursion is bounded by the number of clusters; the fuel counts it.
\<close>

fun processCluster :: "nat \<Rightarrow> HDBSCAN \<Rightarrow> Cluster \<Rightarrow> walk \<Rightarrow> walk option" where
  "processCluster 0 st cluster x = None"
| "processCluster (Suc fuel) st cluster x =
     (if cluster_id cluster \<in> set (discardedClusters x) then Some x
      else
        let clusterPoints = getClusterPoints cluster;
            stability0 = calculateClusterStability cluster clusterPoints;
            childClusters = childClustersOf (clusters x) cluster;
            childrenStabilities =
              map (\<lambda>c. (cluster_id c, calculateClusterStability c (getClusterPoints c))) childClusters;
            cs1 = fold (\<lambda>(i, s) cs. setStability i s cs) childrenStabilities (clusters x);
            childrenStability = foldl (\<lambda>sum c. nadd sum (snd c)) (Fin 0) childrenStabilities;
            stab = (if cluster_id cluster = 0 \<and> shouldSkipRootCluster st then Fin 0 else stability0);
            cs2 = setStability (cluster_id cluster) stab cs1
        in if (nlt childrenStability stab \<and> minClusterSize st \<le> int (length clusterPoints))
              \<or> list_all (\<lambda>c. int (length (children c)) < minClusterSize st) childClusters
           then Some (x\<lparr> clusters := cs2,
                         selectedClusters := addSelected cluster (selectedClusters x),
                         discardedClusters := discardedClusters x @ map cluster_id childClusters \<rparr>)
           else
             (let discarded' = discardedClusters x @ [cluster_id cluster]
              in fold (\<lambda>c r. case r of None \<Rightarrow> None | Some y \<Rightarrow> processCluster fuel st c y)
                   (filter (\<lambda>c. minClusterSize st \<le> int (cluster_size c)
                                \<and> cluster_id c \<notin> set discarded') childClusters)
                   (Some (x\<lparr> clusters := cs2, discardedClusters := discarded' \<rparr>))))"

text \<open>
  The labels. Every point of a cluster built by \<open>fit\<close> is an index of the data, so the
  two array writes are in range.
\<close>

definition labelCluster ::
  "HDBSCAN \<Rightarrow> Cluster \<Rightarrow> int list \<times> number list \<times> int \<Rightarrow> int list \<times> number list \<times> int" where
  "labelCluster st cluster acc =
     (case acc of (labels, probs, currentLabel) \<Rightarrow>
      let points = getClusterPoints cluster in
      if minClusterSize st \<le> int (length points) then
        (fold (\<lambda>point ls. ls[point := currentLabel]) points labels,
         fold (\<lambda>point ps. ps[point := calculateMembership point cluster]) points probs,
         currentLabel + 1)
      else (labels, probs, currentLabel))"

definition assignClusterLabels :: "HDBSCAN \<Rightarrow> Cluster list \<Rightarrow> real list list \<Rightarrow> HDBSCAN" where
  "assignClusterLabels st selected data =
     (let n = length data;
          r = fold (labelCluster st) selected (replicate n (- 1), replicate n (Fin 0), 0)
      in st\<lparr> labels_fld := fst r, probabilities_fld := fst (snd r) \<rparr>)"

definition extractClusters :: "HDBSCAN \<Rightarrow> Cluster list \<Rightarrow> real list list \<Rightarrow> HDBSCAN option" where
  "extractClusters st condensedHierarchy data =
     (let x0 = \<lparr> clusters = condensedHierarchy, selectedClusters = [], discardedClusters = [] \<rparr>
      in case (if condensedHierarchy \<noteq> []
               then processCluster (length condensedHierarchy + 1) st (condensedHierarchy ! 0) x0
               else Some x0) of
           None \<Rightarrow> None
         | Some x \<Rightarrow> Some (assignClusterLabels st (selectedClusters x) data))"

section \<open>The fit method\<close>

text \<open>
  The result is \<open>None\<close> when the source does not return, \<open>Some (Inl e)\<close> when it throws
  \<open>e\<close>, and otherwise the labels it returns with the instance after the call.
\<close>

definition fit :: "HDBSCAN \<Rightarrow> real list list \<Rightarrow> (error + (int list \<times> HDBSCAN)) option" where
  "fit st data =
     (case computeMutualReachabilityDistance st data of
        Inl e \<Rightarrow> Some (Inl e)
      | Inr mutualReachabilityDist \<Rightarrow>
          (case buildMinimumSpanningTree mutualReachabilityDist of
             None \<Rightarrow> None
           | Some mst \<Rightarrow>
               (case buildClusterHierarchy (st\<lparr> sortedEdges := mst \<rparr>) mst of
                  Inl e \<Rightarrow> Some (Inl e)
                | Inr (hierarchy, st') \<Rightarrow>
                    (case extractClusters st' (condenseHierarchy st' hierarchy) data of
                       None \<Rightarrow> None
                     | Some st'' \<Rightarrow> Some (Inr (labels_fld st'', st''))))))"

section \<open>Drivers\<close>

text \<open>The values of the two parameters after the defaults are applied.\<close>

definition effectiveMinClusterSize :: "HDBSCANParams \<Rightarrow> int" where
  "effectiveMinClusterSize p = (case minClusterSize_opt p of None \<Rightarrow> 5 | Some v \<Rightarrow> v)"

definition effectiveMinSamples :: "HDBSCANParams \<Rightarrow> int" where
  "effectiveMinSamples p =
     (case minSamples_opt p of None \<Rightarrow> effectiveMinClusterSize p | Some v \<Rightarrow> v)"

text \<open>\<open>new HDBSCAN(p).fit(data)\<close>, the use shown in the README.\<close>

definition newAndFit ::
  "HDBSCANParams \<Rightarrow> real list list \<Rightarrow> (error + (int list \<times> HDBSCAN)) option" where
  "newAndFit p data = (case constructor p of Inl e \<Rightarrow> Some (Inl e) | Inr st \<Rightarrow> fit st data)"

text \<open>The first three steps of \<open>fit\<close>: the hierarchy and the instance after them.\<close>

definition fitHierarchy ::
  "HDBSCAN \<Rightarrow> real list list \<Rightarrow> (error + (Cluster list \<times> HDBSCAN)) option" where
  "fitHierarchy st data =
     (case computeMutualReachabilityDistance st data of
        Inl e \<Rightarrow> Some (Inl e)
      | Inr mutualReachabilityDist \<Rightarrow>
          (case buildMinimumSpanningTree mutualReachabilityDist of
             None \<Rightarrow> None
           | Some mst \<Rightarrow> Some (buildClusterHierarchy (st\<lparr> sortedEdges := mst \<rparr>) mst)))"


definition condensedOf :: "HDBSCAN \<Rightarrow> real list list \<Rightarrow> Cluster list" where
  "condensedOf st data =
     (case fitHierarchy st data of
        Some (Inr (h, st')) \<Rightarrow> condenseHierarchy st' h
      | _ \<Rightarrow> [])"

text \<open>The two public arrays after a call of \<open>fit\<close>.\<close>

definition fitOutputs ::
  "HDBSCAN \<Rightarrow> real list list \<Rightarrow> (error + (int list \<times> number list)) option" where
  "fitOutputs st data =
     (case fit st data of
        None \<Rightarrow> None
      | Some (Inl e) \<Rightarrow> Some (Inl e)
      | Some (Inr (l, st')) \<Rightarrow> Some (Inr (labels_fld st', probabilities_fld st')))"

text \<open>Two calls of \<open>fit\<close> in succession on one instance, with the arrays after each.\<close>

definition fitTwice ::
  "HDBSCAN \<Rightarrow> real list list
     \<Rightarrow> ((int list \<times> number list) \<times> (int list \<times> number list)) option" where
  "fitTwice st data =
     (case fit st data of
        Some (Inr (l1, st1)) \<Rightarrow>
          (case fit st1 data of
             Some (Inr (l2, st2)) \<Rightarrow>
               Some ((labels_fld st1, probabilities_fld st1), (labels_fld st2, probabilities_fld st2))
           | _ \<Rightarrow> None)
      | _ \<Rightarrow> None)"

text \<open>The instance \<open>new HDBSCAN({minClusterSize: mcs, minSamples: ms})\<close> for valid values.\<close>

definition instance0 :: "int \<Rightarrow> int \<Rightarrow> HDBSCAN" where
  "instance0 mcs ms =
     \<lparr> minClusterSize = mcs, minSamples = ms, labels_fld = [], probabilities_fld = [],
       nextClusterId = 0, sortedEdges = [], shouldSkipRootCluster = True \<rparr>"

text \<open>The steps of \<open>fit\<close> after the first, on the matrix that the first step returned.\<close>

definition fitFrom ::
  "HDBSCAN \<Rightarrow> number list list \<Rightarrow> real list list \<Rightarrow> (error + (int list \<times> HDBSCAN)) option" where
  "fitFrom st mutualReachabilityDist data =
     (case buildMinimumSpanningTree mutualReachabilityDist of
        None \<Rightarrow> None
      | Some mst \<Rightarrow>
          (case buildClusterHierarchy (st\<lparr> sortedEdges := mst \<rparr>) mst of
             Inl e \<Rightarrow> Some (Inl e)
           | Inr (hierarchy, st') \<Rightarrow>
               (case extractClusters st' (condenseHierarchy st' hierarchy) data of
                  None \<Rightarrow> None
                | Some st'' \<Rightarrow> Some (Inr (labels_fld st'', st'')))))"


text \<open>
  The state of the walk at the end of \<open>processCluster\<close> in a call of \<open>fit\<close>: the first
  three steps, the condensation and the call of \<open>processCluster\<close> on the first
  condensed cluster, as \<open>extractClusters\<close> makes it.
\<close>

definition walkOf :: "HDBSCAN \<Rightarrow> real list list \<Rightarrow> walk option" where
  "walkOf st data =
     (case fitHierarchy st data of
        Some (Inr (hierarchy, st')) \<Rightarrow>
          (let condensedHierarchy = condenseHierarchy st' hierarchy;
               x0 = \<lparr> clusters = condensedHierarchy, selectedClusters = [], discardedClusters = [] \<rparr>
           in if condensedHierarchy \<noteq> []
              then processCluster (length condensedHierarchy + 1) st' (condensedHierarchy ! 0) x0
              else Some x0)
      | _ \<Rightarrow> None)"

section \<open>Specification of the spanning tree\<close>

fun isFin :: "number \<Rightarrow> bool" where
  "isFin (Fin r) = True"
| "isFin _ = False"

text \<open>A square matrix of finite weights.\<close>

definition finiteMatrix :: "number list list \<Rightarrow> bool" where
  "finiteMatrix d = (\<forall>row \<in> set d. length row = length d \<and> (\<forall>x \<in> set row. isFin x))"

declare primLoop.simps [simp del]

text \<open>
  The run of Prim's algorithm in the words of the specification. From the visited
  vertices \<open>visited\<close>, the next edge \<open>(p, v, w)\<close> joins an unvisited vertex \<open>v\<close> to a
  visited vertex \<open>p\<close> with the weight \<open>w\<close> of the matrix; no visited vertex is nearer
  than \<open>w\<close> to an unvisited one, so \<open>w\<close> is the least candidate weight; and every
  unvisited vertex of smaller index than \<open>v\<close> is farther than \<open>w\<close> from every visited
  vertex, so \<open>v\<close> is the smallest index with the least weight. The run ends when every
  vertex is visited.
\<close>

fun primTrace :: "number list list \<Rightarrow> nat list \<Rightarrow> edge list \<Rightarrow> bool" where
  "primTrace d visited [] = (\<forall>u \<in> set [0..<length d]. u \<in> set visited)"
| "primTrace d visited ((p, v, w) # es) =
     (v < length d \<and> v \<notin> set visited \<and> p \<in> set visited \<and> w = cell d p v
      \<and> (\<forall>u \<in> set [0..<length d]. u \<notin> set visited \<longrightarrow>
            (\<forall>x \<in> set visited. nle w (cell d x u) \<and> (u < v \<longrightarrow> nlt w (cell d x u))))
      \<and> primTrace d (visited @ [v]) es)"

text \<open>The invariant of the loop and the bodies of its two scans.\<close>

definition wt :: "number list list \<Rightarrow> nat \<Rightarrow> nat \<Rightarrow> real" where
  "wt d i j = (case cell d i j of Fin r \<Rightarrow> r | _ \<Rightarrow> 0)"

definition primInv :: "number list list \<Rightarrow> nat list \<Rightarrow> number list \<Rightarrow> nat list \<Rightarrow> bool" where
  "primInv d visited minEdges conn =
     (length minEdges = length d \<and> length conn = length d \<and> distinct visited
      \<and> set visited \<subseteq> {..<length d}
      \<and> (\<forall>u<length d. u \<notin> set visited \<longrightarrow>
            conn ! u \<in> set visited \<and> minEdges ! u = Fin (wt d (conn ! u) u)
            \<and> (\<forall>x \<in> set visited. wt d (conn ! u) u \<le> wt d x u)))"

definition scanStep :: "nat list \<Rightarrow> number list \<Rightarrow> number \<times> nat option \<Rightarrow> nat \<Rightarrow> number \<times> nat option" where
  "scanStep visited minEdges = (\<lambda>(minDist, nextVertex) i.
              if i \<notin> set visited \<and> nlt (minEdges ! i) minDist
              then (minEdges ! i, Some i) else (minDist, nextVertex))"

definition relaxStep ::
  "number list list \<Rightarrow> nat \<Rightarrow> nat list \<Rightarrow> number list \<times> nat list \<Rightarrow> nat \<Rightarrow> number list \<times> nat list" where
  "relaxStep d v visited = (\<lambda>(minEdges, conn) i.
              if i \<notin> set visited \<and> nlt (cell d v i) (minEdges ! i)
              then (minEdges[i := cell d v i], conn[i := v]) else (minEdges, conn))"

text \<open>
  The part of the loop invariant of Prim's algorithm that holds for every matrix: the
  candidate parent of every vertex is a visited vertex.
\<close>

definition connInv :: "nat \<Rightarrow> nat list \<Rightarrow> number list \<Rightarrow> nat list \<Rightarrow> bool" where
  "connInv n visited minEdges conn =
     (length minEdges = n \<and> length conn = n \<and> distinct visited \<and> set visited \<subseteq> {..<n}
      \<and> (\<forall>u<n. conn ! u \<in> set visited))"

section \<open>Specification of the disjoint sets\<close>

text \<open>
  \<open>reach l x r k\<close>: following the parent links of \<open>l\<close> from \<open>x\<close> arrives after \<open>k\<close>
  steps at \<open>r\<close>, which is its own parent.
\<close>

inductive reach :: "nat list \<Rightarrow> nat \<Rightarrow> nat \<Rightarrow> nat \<Rightarrow> bool" for l :: "nat list" where
  reach_root: "x < length l \<Longrightarrow> l ! x = x \<Longrightarrow> reach l x x 0"
| reach_step: "x < length l \<Longrightarrow> l ! x \<noteq> x \<Longrightarrow> reach l (l ! x) r k \<Longrightarrow> reach l x r (Suc k)"

definition rootOf :: "nat list \<Rightarrow> nat \<Rightarrow> nat \<Rightarrow> bool" where
  "rootOf l x r = (\<exists>k. reach l x r k)"

definition ufValid :: "nat list \<Rightarrow> bool" where
  "ufValid l = (\<forall>x<length l. \<exists>r. rootOf l x r)"

definition sameRoot :: "nat list \<Rightarrow> nat \<Rightarrow> nat \<Rightarrow> bool" where
  "sameRoot l x y = (\<exists>r. rootOf l x r \<and> rootOf l y r)"

text \<open>Every link stays inside a class of the function \<open>f\<close>.\<close>

definition ufSound :: "(nat \<Rightarrow> 'a) \<Rightarrow> nat list \<Rightarrow> bool" where
  "ufSound f l = (\<forall>x<length l. f (l ! x) = f x)"

text \<open>The root of an element, and the invariant of the \<open>components\<close> map.\<close>

definition rt :: "nat list \<Rightarrow> nat \<Rightarrow> nat" where
  "rt l x = (THE r. rootOf l x r)"

definition groupInv :: "(nat \<Rightarrow> nat) \<Rightarrow> (nat \<times> nat list) list \<Rightarrow> nat set \<Rightarrow> bool" where
  "groupInv key comps S =
     (distinct (map fst comps)
      \<and> (\<forall>(r, qs) \<in> set comps. qs \<noteq> [] \<and> (\<forall>q \<in> set qs. key q = r))
      \<and> set (concat (map snd comps)) = S
      \<and> distinct (concat (map snd comps)))"

definition addTo :: "nat \<Rightarrow> nat \<Rightarrow> (nat \<times> nat list) list \<Rightarrow> (nat \<times> nat list) list" where
  "addTo k p comps = map (\<lambda>(r, ps). if r = k then (r, ps @ [p]) else (r, ps)) comps"

definition pts :: "(nat \<times> nat list) list \<Rightarrow> nat list" where
  "pts comps = concat (map snd comps)"

section \<open>Specification of the tree\<close>

text \<open>A weight below \<open>Infinity\<close> in the order of \<open><\<close>: a finite number or \<open>-Infinity\<close>.\<close>

fun ltInf :: "number \<Rightarrow> bool" where
  "ltInf (Fin r) = True"
| "ltInf NInf = True"
| "ltInf _ = False"

definition dstOf :: "edge \<Rightarrow> nat" where
  "dstOf e = fst (snd e)"

definition wOf :: "edge \<Rightarrow> number" where
  "wOf e = snd (snd e)"

text \<open>
  The shape of the list that Prim's algorithm returns: every edge joins a vertex not
  visited before to a visited one.
\<close>

fun primTree :: "nat list \<Rightarrow> edge list \<Rightarrow> bool" where
  "primTree visited [] = True"
| "primTree visited ((p, v, w) # es) =
     (p \<in> set visited \<and> v \<notin> set visited \<and> primTree (visited @ [v]) es)"

text \<open>The same shape read from the last edge back to the first.\<close>

definition verts :: "edge list \<Rightarrow> nat set" where
  "verts es = insert 0 (dstOf ` set es)"

fun treeRev :: "edge list \<Rightarrow> bool" where
  "treeRev [] = True"
| "treeRev ((p, v, w) # es) = (v \<notin> verts es \<and> p \<in> verts es \<and> treeRev es)"

text \<open>
  The representative of a vertex in the forest of the edges whose end vertex is in
  \<open>K\<close>: the walk goes from a vertex to the vertex it was attached to as long as the
  edge is kept.
\<close>

fun rep :: "nat set \<Rightarrow> edge list \<Rightarrow> nat \<Rightarrow> nat" where
  "rep K [] x = x"
| "rep K ((p, v, w) # es) x = (if x = v \<and> v \<in> K then rep K es p else rep K es x)"

section \<open>Specification of the hierarchy\<close>

text \<open>The member set of the cluster at a position of the hierarchy.\<close>

definition memb :: "Cluster list \<Rightarrow> nat \<Rightarrow> nat set" where
  "memb h j = set (children (h ! j))"

definition hasBoth :: "Cluster list \<Rightarrow> edge \<Rightarrow> nat \<Rightarrow> bool" where
  "hasBoth h e j = (fst e \<in> memb h j \<and> dstOf e \<in> memb h j)"

text \<open>
  \<open>kid mcs h j a\<close>: the cluster at position \<open>j\<close> was split into the clusters at the
  positions \<open>a\<close> and \<open>a + 1\<close>. Their member sets are disjoint and cover the members of
  \<open>j\<close>; the left link of \<open>j\<close> is the id of the first exactly when that has at least \<open>mcs\<close>
  points, the right link is the id of the second exactly when that has; and neither is
  born at a greater distance than \<open>j\<close>.
\<close>

definition kid :: "int \<Rightarrow> Cluster list \<Rightarrow> nat \<Rightarrow> nat \<Rightarrow> bool" where
  "kid mcs h j a =
     (j < a \<and> Suc a < length h
      \<and> memb h a \<union> memb h (Suc a) = memb h j \<and> memb h a \<inter> memb h (Suc a) = {}
      \<and> leftChild (h ! j)
          = (if mcs \<le> int (length (children (h ! a))) then Some (cluster_id (h ! a)) else None)
      \<and> rightChild (h ! j)
          = (if mcs \<le> int (length (children (h ! Suc a))) then Some (cluster_id (h ! Suc a)) else None)
      \<and> nle (distance (h ! a)) (distance (h ! j))
      \<and> nle (distance (h ! Suc a)) (distance (h ! j)))"

text \<open>Every edge still to come that lies in \<open>j\<close> lies in one of the two parts.\<close>

definition edgesClosed :: "edge list \<Rightarrow> Cluster list \<Rightarrow> nat \<Rightarrow> nat \<Rightarrow> bool" where
  "edgesClosed es h j a = (\<forall>e \<in> set es. hasBoth h e j \<longrightarrow> hasBoth h e a \<or> hasBoth h e (Suc a))"

text \<open>A cluster that has not been split: it has no link and meets no newer cluster.\<close>

definition leaf :: "Cluster list \<Rightarrow> nat \<Rightarrow> bool" where
  "leaf h j =
     (leftChild (h ! j) = None \<and> rightChild (h ! j) = None
      \<and> (\<forall>k. j < k \<and> k < length h \<longrightarrow> memb h k \<inter> memb h j = {}))"

text \<open>\<open>anc mcs h j k\<close>: position \<open>k\<close> is reached from \<open>j\<close> by one or more splits.\<close>

inductive anc :: "int \<Rightarrow> Cluster list \<Rightarrow> nat \<Rightarrow> nat \<Rightarrow> bool" for mcs :: int and h :: "Cluster list" where
  anc_kid: "kid mcs h j a \<Longrightarrow> k = a \<or> k = Suc a \<Longrightarrow> anc mcs h j k"
| anc_step: "anc mcs h j k \<Longrightarrow> kid mcs h k a \<Longrightarrow> k' = a \<or> k' = Suc a \<Longrightarrow> anc mcs h j k'"

text \<open>
  The invariant of the loop of \<open>buildClusterHierarchy\<close> over \<open>n\<close> points, with the ids
  starting at \<open>b\<close> and the edges \<open>es\<close> still to come.
\<close>

definition hInv :: "nat \<Rightarrow> int \<Rightarrow> nat \<Rightarrow> edge list \<Rightarrow> Cluster list \<Rightarrow> bool" where
  "hInv n mcs b es h =
     (h \<noteq> [] \<and> children (h ! 0) = [0..<n]
      \<and> (\<forall>j<length h. distinct (children (h ! j)) \<and> memb h j \<subseteq> {..<n} \<and> children (h ! j) \<noteq> []
            \<and> cluster_id (h ! j) = b + j \<and> ltInf (distance (h ! j))
            \<and> (\<forall>e \<in> set es. nle (wOf e) (distance (h ! j))))
      \<and> (\<forall>j<length h. leaf h j \<or> (\<exists>a. kid mcs h j a \<and> edgesClosed es h j a))
      \<and> (\<forall>j k. j < k \<and> k < length h \<longrightarrow> memb h j \<inter> memb h k = {} \<or> anc mcs h j k))"

text \<open>
  \<open>ext p h h'\<close>: \<open>h'\<close> continues \<open>h\<close>; the clusters of \<open>h\<close> keep their members, distance
  and id, and all but the one at \<open>p\<close> keep their links.
\<close>

definition ext :: "nat \<Rightarrow> Cluster list \<Rightarrow> Cluster list \<Rightarrow> bool" where
  "ext p h h' =
     (length h \<le> length h'
      \<and> (\<forall>j<length h. children (h' ! j) = children (h ! j) \<and> distance (h' ! j) = distance (h ! j)
            \<and> cluster_id (h' ! j) = cluster_id (h ! j)
            \<and> (j \<noteq> p \<longrightarrow> leftChild (h' ! j) = leftChild (h ! j)
                          \<and> rightChild (h' ! j) = rightChild (h ! j))))"

section \<open>Specification of the walk\<close>

text \<open>The parts of one call of \<open>processCluster\<close> on the cluster \<open>c\<close> in the state \<open>x\<close>.\<close>

definition walkStab :: "HDBSCAN \<Rightarrow> Cluster \<Rightarrow> number" where
  "walkStab st c =
     (if cluster_id c = 0 \<and> shouldSkipRootCluster st then Fin 0
      else calculateClusterStability c (getClusterPoints c))"

definition walkChildStab :: "walk \<Rightarrow> Cluster \<Rightarrow> (nat \<times> number) list" where
  "walkChildStab x c =
     map (\<lambda>c. (cluster_id c, calculateClusterStability c (getClusterPoints c)))
       (childClustersOf (clusters x) c)"

definition walkClusters :: "HDBSCAN \<Rightarrow> walk \<Rightarrow> Cluster \<Rightarrow> Cluster list" where
  "walkClusters st x c =
     setStability (cluster_id c) (walkStab st c)
       (fold (\<lambda>(i, s) cs. setStability i s cs) (walkChildStab x c) (clusters x))"

definition walkSelects :: "HDBSCAN \<Rightarrow> walk \<Rightarrow> Cluster \<Rightarrow> bool" where
  "walkSelects st x c =
     ((nlt (foldl (\<lambda>sum c. nadd sum (snd c)) (Fin 0) (walkChildStab x c)) (walkStab st c)
        \<and> minClusterSize st \<le> int (length (getClusterPoints c)))
      \<or> list_all (\<lambda>c. int (length (children c)) < minClusterSize st)
           (childClustersOf (clusters x) c))"

definition walkNext :: "HDBSCAN \<Rightarrow> walk \<Rightarrow> Cluster \<Rightarrow> Cluster list" where
  "walkNext st x c =
     filter (\<lambda>c'. minClusterSize st \<le> int (cluster_size c')
                 \<and> cluster_id c' \<notin> set (discardedClusters x @ [cluster_id c]))
       (childClustersOf (clusters x) c)"

section \<open>Specification of descendants\<close>

text \<open>
  \<open>descendant h c d\<close>: in the hierarchy \<open>h\<close> the cluster \<open>d\<close> is reached from \<open>c\<close> by one
  or more child links.
\<close>

inductive descendant :: "Cluster list \<Rightarrow> Cluster \<Rightarrow> Cluster \<Rightarrow> bool" for h :: "Cluster list" where
  desc_child: "c \<in> set h \<Longrightarrow> d \<in> set h \<Longrightarrow>
     leftChild c = Some (cluster_id d) \<or> rightChild c = Some (cluster_id d) \<Longrightarrow> descendant h c d"
| desc_step: "descendant h c d \<Longrightarrow> d' \<in> set h \<Longrightarrow>
     leftChild d = Some (cluster_id d') \<or> rightChild d = Some (cluster_id d') \<Longrightarrow> descendant h c d'"


section \<open>The constructor\<close>

lemma constructor_instance0:
  "0 < mcs \<Longrightarrow> 0 < ms \<Longrightarrow>
   constructor \<lparr> minClusterSize_opt = Some mcs, minSamples_opt = Some ms,
                 shouldSkipRootCluster_opt = None \<rparr> = Inr (instance0 mcs ms)"
  by (simp add: constructor_def instance0_def)

text \<open>
  Claim C9. The constructor throws exactly when the effective \<open>minClusterSize\<close> or the
  effective \<open>minSamples\<close> is at most \<open>0\<close>. When it throws, the error is one of its two
  invalid-argument errors and \<open>new HDBSCAN(p).fit(data)\<close> ends with that error for every
  data, so no step of \<open>fit\<close> runs and no instance exists whose arrays could be filled;
  when it returns, the two arrays of the instance are empty.
\<close>

theorem constructor_throws_iff:
  "((\<exists>e. constructor p = Inl e)
      \<longleftrightarrow> (effectiveMinClusterSize p \<le> 0 \<or> effectiveMinSamples p \<le> 0))
   \<and> (\<forall>e. constructor p = Inl e \<longrightarrow>
          (e = InvalidMinClusterSize \<or> e = InvalidMinSamples)
          \<and> (\<forall>data. newAndFit p data = Some (Inl e)))
   \<and> (\<forall>st. constructor p = Inr st \<longrightarrow> labels_fld st = [] \<and> probabilities_fld st = [])"
  by (auto simp: constructor_def effectiveMinClusterSize_def effectiveMinSamples_def
        newAndFit_def Let_def split: option.splits if_splits)

theorem constructor_throws_iff_witness:
  "effectiveMinClusterSize \<lparr> minClusterSize_opt = Some 0, minSamples_opt = None,
                              shouldSkipRootCluster_opt = None \<rparr> \<le> 0
   \<and> constructor \<lparr> minClusterSize_opt = Some 0, minSamples_opt = None,
                      shouldSkipRootCluster_opt = None \<rparr> = Inl InvalidMinClusterSize
   \<and> newAndFit \<lparr> minClusterSize_opt = Some 0, minSamples_opt = None,
                    shouldSkipRootCluster_opt = None \<rparr> [[1, 2], [2, 3]]
       = Some (Inl InvalidMinClusterSize)"
proof -
  let ?p = "\<lparr> minClusterSize_opt = Some (0::int), minSamples_opt = None,
              shouldSkipRootCluster_opt = None \<rparr>"
  have c: "constructor ?p = Inl InvalidMinClusterSize"
    by (simp add: constructor_def)
  from constructor_throws_iff [of ?p] c
  have "newAndFit ?p [[1, 2], [2, 3]] = Some (Inl InvalidMinClusterSize)"
    by blast
  with c show ?thesis
    by (simp add: effectiveMinClusterSize_def)
qed

section \<open>The spanning tree\<close>

lemma isFin_iff: "isFin x \<longleftrightarrow> (\<exists>r. x = Fin r)"
  by (cases x) auto

lemma cell_wt: "finiteMatrix d \<Longrightarrow> i < length d \<Longrightarrow> j < length d \<Longrightarrow> cell d i j = Fin (wt d i j)"
proof -
  assume f: "finiteMatrix d" and i: "i < length d" and j: "j < length d"
  from f i have l: "length (d ! i) = length d" and a: "\<forall>x \<in> set (d ! i). \<exists>r. x = Fin r"
    by (auto simp: finiteMatrix_def isFin_iff)
  from l j a obtain r where "d ! i ! j = Fin r"
    by (metis nth_mem)
  with i j l show ?thesis
    by (simp add: cell_def wt_def)
qed

lemma scanStep_pair:
  "scanStep visited minEdges (m, nv) i =
     (if i \<notin> set visited \<and> nlt (minEdges ! i) m then (minEdges ! i, Some i) else (m, nv))"
  by (simp add: scanStep_def)

lemma findNext_prefix:
  assumes fin: "\<forall>u<n. u \<notin> set visited \<longrightarrow> (\<exists>r. minEdges ! u = Fin r)"
  shows "k \<le> n \<Longrightarrow>
    (case foldl (scanStep visited minEdges) (PInf, None) [0..<k] of
       (m, None) \<Rightarrow> m = PInf \<and> (\<forall>u<k. u \<in> set visited)
     | (m, Some v) \<Rightarrow> v < k \<and> v \<notin> set visited \<and> m = minEdges ! v
          \<and> (\<forall>u<k. u \<notin> set visited \<longrightarrow> nle m (minEdges ! u) \<and> (u < v \<longrightarrow> nlt m (minEdges ! u))))"
proof (induction k)
  case 0
  then show ?case by simp
next
  case (Suc k)
  then have kn: "k < n" and IH: 
    "(case foldl (scanStep visited minEdges) (PInf, None) [0..<k] of
       (m, None) \<Rightarrow> m = PInf \<and> (\<forall>u<k. u \<in> set visited)
     | (m, Some v) \<Rightarrow> v < k \<and> v \<notin> set visited \<and> m = minEdges ! v
          \<and> (\<forall>u<k. u \<notin> set visited \<longrightarrow> nle m (minEdges ! u) \<and> (u < v \<longrightarrow> nlt m (minEdges ! u))))"
    by auto
  obtain m nv where F: "foldl (scanStep visited minEdges) (PInf, None) [0..<k] = (m, nv)"
    by (cases "foldl (scanStep visited minEdges) (PInf, None) [0..<k]") auto
  show ?case
  proof (cases "k \<in> set visited")
    case True
    then have "foldl (scanStep visited minEdges) (PInf, None) [0..<Suc k] = (m, nv)"
      by (simp add: F scanStep_pair)
    with IH F True show ?thesis
      by (cases nv) (auto simp: less_Suc_eq)
  next
    case False
    with fin kn obtain r where r: "minEdges ! k = Fin r" by blast
    show ?thesis
    proof (cases nv)
      case None
      with IH F have "m = PInf" and allv: "\<forall>u<k. u \<in> set visited" by auto
      then have "foldl (scanStep visited minEdges) (PInf, None) [0..<Suc k] = (Fin r, Some k)"
        using False r by (simp add: F scanStep_pair)
      with allv False r show ?thesis by (auto simp: less_Suc_eq)
    next
      case (Some v)
      with IH F have v: "v < k" "v \<notin> set visited" "m = minEdges ! v"
        and mn: "\<forall>u<k. u \<notin> set visited \<longrightarrow> nle m (minEdges ! u) \<and> (u < v \<longrightarrow> nlt m (minEdges ! u))"
        by auto
      from v kn fin obtain rv where rv: "m = Fin rv" by force
      show ?thesis
      proof (cases "r < rv")
        case True
        then have E: "foldl (scanStep visited minEdges) (PInf, None) [0..<Suc k] = (Fin r, Some k)"
          using False r rv by (simp add: F scanStep_pair)
        have "\<forall>u<k. u \<notin> set visited \<longrightarrow> nlt (Fin r) (minEdges ! u)"
        proof (intro allI impI)
          fix u assume u: "u < k" "u \<notin> set visited"
          with fin kn obtain ru where ru: "minEdges ! u = Fin ru" by force
          from mn u have "nle m (minEdges ! u)" by blast
          with ru rv True show "nlt (Fin r) (minEdges ! u)" by simp
        qed
        then have "\<forall>u<Suc k. u \<notin> set visited \<longrightarrow> nle (Fin r) (minEdges ! u) \<and> (u < k \<longrightarrow> nlt (Fin r) (minEdges ! u))"
          using r fin kn
          by (metis less_Suc_eq less_eq_real_def nle.simps(1) nlt.simps(1) order_less_le_trans linorder_not_le not_less_eq)
        with E False r show ?thesis by simp
      next
        case False2: False
        then have E: "foldl (scanStep visited minEdges) (PInf, None) [0..<Suc k] = (m, Some v)"
          using False r rv Some by (simp add: F scanStep_pair)
        have "nle m (minEdges ! k)" using False2 r rv by simp
        with mn v have "\<forall>u<Suc k. u \<notin> set visited \<longrightarrow> nle m (minEdges ! u) \<and> (u < v \<longrightarrow> nlt m (minEdges ! u))"
          by (auto simp: less_Suc_eq)
        with E v show ?thesis by simp
      qed
    qed
  qed
qed

lemma findNext_eq: "findNext n visited minEdges = foldl (scanStep visited minEdges) (PInf, None) [0..<n]"
  by (simp add: findNext_def scanStep_def)

lemma findNext_some:
  assumes inv: "primInv d visited minEdges conn" and lt: "length visited < length d"
  shows "\<exists>v. findNext (length d) visited minEdges = (minEdges ! v, Some v)
            \<and> v < length d \<and> v \<notin> set visited
            \<and> (\<forall>u<length d. u \<notin> set visited \<longrightarrow>
                  nle (minEdges ! v) (minEdges ! u) \<and> (u < v \<longrightarrow> nlt (minEdges ! v) (minEdges ! u)))"
proof -
  let ?n = "length d"
  from inv have fin: "\<forall>u<?n. u \<notin> set visited \<longrightarrow> (\<exists>r. minEdges ! u = Fin r)"
    by (auto simp: primInv_def)
  from inv have d: "distinct visited" and sub: "set visited \<subseteq> {..<?n}"
    by (auto simp: primInv_def)
  have "\<exists>u<?n. u \<notin> set visited"
  proof (rule ccontr)
    assume "\<not> (\<exists>u<?n. u \<notin> set visited)"
    then have "{..<?n} \<subseteq> set visited" by auto
    then have "card {..<?n} \<le> card (set visited)" by (intro card_mono) auto
    with d lt show False by (simp add: distinct_card)
  qed
  then obtain u0 where u0: "u0 < ?n" "u0 \<notin> set visited" by blast
  obtain m nv where F: "foldl (scanStep visited minEdges) (PInf, None) [0..<?n] = (m, nv)"
    by (cases "foldl (scanStep visited minEdges) (PInf, None) [0..<?n]") auto
  from findNext_prefix [OF fin, of ?n] F u0 show ?thesis
    by (cases nv) (auto simp: findNext_eq)
qed

lemma relaxStep_pair:
  "relaxStep d v visited (me, c) i =
     (if i \<notin> set visited \<and> nlt (cell d v i) (me ! i) then (me[i := cell d v i], c[i := v]) else (me, c))"
  by (simp add: relaxStep_def)

lemma relax_eq: "relax d n v visited mc = foldl (relaxStep d v visited) mc [0..<n]"
  by (simp add: relax_def relaxStep_def)

lemma relax_prefix:
  assumes "length me = n" "length c = n"
  shows "k \<le> n \<Longrightarrow>
    (\<exists>me' c'. foldl (relaxStep d v vis) (me, c) [0..<k] = (me', c')
       \<and> length me' = n \<and> length c' = n
       \<and> (\<forall>i<n. me' ! i = (if i < k \<and> i \<notin> set vis \<and> nlt (cell d v i) (me ! i) then cell d v i else me ! i)
                \<and> c' ! i = (if i < k \<and> i \<notin> set vis \<and> nlt (cell d v i) (me ! i) then v else c ! i)))"
proof (induction k)
  case 0
  with assms show ?case by simp
next
  case (Suc k)
  then obtain me' c' where F: "foldl (relaxStep d v vis) (me, c) [0..<k] = (me', c')"
    and l: "length me' = n" "length c' = n"
    and p: "\<forall>i<n. me' ! i = (if i < k \<and> i \<notin> set vis \<and> nlt (cell d v i) (me ! i) then cell d v i else me ! i)
                \<and> c' ! i = (if i < k \<and> i \<notin> set vis \<and> nlt (cell d v i) (me ! i) then v else c ! i)"
    by auto
  from Suc.prems have kn: "k < n" by simp
  with p have mk: "me' ! k = me ! k" by simp
  show ?case
  proof (cases "k \<notin> set vis \<and> nlt (cell d v k) (me ! k)")
    case True
    then have "foldl (relaxStep d v vis) (me, c) [0..<Suc k] = (me'[k := cell d v k], c'[k := v])"
      by (simp add: F relaxStep_pair mk)
    moreover have "\<forall>i<n. (me'[k := cell d v k]) ! i = (if i < Suc k \<and> i \<notin> set vis \<and> nlt (cell d v i) (me ! i) then cell d v i else me ! i)
                \<and> (c'[k := v]) ! i = (if i < Suc k \<and> i \<notin> set vis \<and> nlt (cell d v i) (me ! i) then v else c ! i)"
      using p l kn True by (auto simp: nth_list_update less_Suc_eq)
    ultimately show ?thesis using l by simp
  next
    case False
    then have "foldl (relaxStep d v vis) (me, c) [0..<Suc k] = (me', c')"
      by (auto simp: F relaxStep_pair mk)
    moreover have "\<forall>i<n. me' ! i = (if i < Suc k \<and> i \<notin> set vis \<and> nlt (cell d v i) (me ! i) then cell d v i else me ! i)
                \<and> c' ! i = (if i < Suc k \<and> i \<notin> set vis \<and> nlt (cell d v i) (me ! i) then v else c ! i)"
      using p False by (auto simp: less_Suc_eq)
    ultimately show ?thesis using l by simp
  qed
qed

lemma relax_inv:
  assumes inv: "primInv d visited me c" and fm: "finiteMatrix d"
    and v: "v < length d" "v \<notin> set visited"
  shows "primInv d (visited @ [v]) (fst (relax d (length d) v (visited @ [v]) (me, c)))
           (snd (relax d (length d) v (visited @ [v]) (me, c)))"
proof -
  let ?n = "length d" and ?vis = "visited @ [v]"
  from inv have l: "length me = ?n" "length c = ?n" by (auto simp: primInv_def)
  from relax_prefix [OF l, of ?n d v ?vis]
  obtain me' c' where F: "relax d ?n v ?vis (me, c) = (me', c')"
    and l': "length me' = ?n" "length c' = ?n"
    and p: "\<forall>i<?n. me' ! i = (if i \<notin> set ?vis \<and> nlt (cell d v i) (me ! i) then cell d v i else me ! i)
                \<and> c' ! i = (if i \<notin> set ?vis \<and> nlt (cell d v i) (me ! i) then v else c ! i)"
    by (auto simp: relax_eq)
  have "\<forall>u<?n. u \<notin> set ?vis \<longrightarrow>
            c' ! u \<in> set ?vis \<and> me' ! u = Fin (wt d (c' ! u) u)
            \<and> (\<forall>x \<in> set ?vis. wt d (c' ! u) u \<le> wt d x u)"
  proof (intro allI impI)
    fix u assume u: "u < ?n" "u \<notin> set ?vis"
    then have uv: "u \<notin> set visited" "u \<noteq> v" by auto
    from inv u uv have old: "c ! u \<in> set visited" "me ! u = Fin (wt d (c ! u) u)"
      "\<forall>x \<in> set visited. wt d (c ! u) u \<le> wt d x u"
      by (auto simp: primInv_def)
    have cv: "cell d v u = Fin (wt d v u)" using fm v u by (simp add: cell_wt)
    show "c' ! u \<in> set ?vis \<and> me' ! u = Fin (wt d (c' ! u) u)
            \<and> (\<forall>x \<in> set ?vis. wt d (c' ! u) u \<le> wt d x u)"
    proof (cases "wt d v u < wt d (c ! u) u")
      case True
      with p u old cv have "me' ! u = Fin (wt d v u)" "c' ! u = v" by auto
      with True old show ?thesis by force
    next
      case False
      with p u old cv have "me' ! u = me ! u" "c' ! u = c ! u" by auto
      with False old show ?thesis by force
    qed
  qed
  with inv l' v show ?thesis
    by (auto simp: primInv_def F)
qed

lemma primLoop_correct:
  assumes fm: "finiteMatrix d"
  shows "primInv d visited me c \<Longrightarrow>
     \<exists>es. primLoop d (length d) visited me c edges = Some (edges @ es)
          \<and> length es = length d - length visited \<and> primTrace d visited es"
proof (induction "length d - length visited" arbitrary: visited me c edges)
  case 0
  then have ge: "length d \<le> length visited" by simp
  from "0.prems" have d: "distinct visited" and sub: "set visited \<subseteq> {..<length d}"
    by (auto simp: primInv_def)
  have "card (set visited) = length visited" using d by (simp add: distinct_card)
  with ge sub have "set visited = {..<length d}"
    by (metis card_lessThan card_subset_eq finite_lessThan le_antisym card_mono)
  then have "primTrace d visited []" by simp
  moreover have "primLoop d (length d) visited me c edges = Some edges"
    using ge by (subst primLoop.simps) simp
  ultimately show ?case using ge by simp
next
  case (Suc k)
  then have lt: "length visited < length d" by simp
  note inv = Suc.prems
  from findNext_some [OF inv lt] obtain v where
    fn: "findNext (length d) visited me = (me ! v, Some v)" and v: "v < length d" "v \<notin> set visited"
    and mn: "\<forall>u<length d. u \<notin> set visited \<longrightarrow> nle (me ! v) (me ! u) \<and> (u < v \<longrightarrow> nlt (me ! v) (me ! u))"
    by blast
  let ?vis = "visited @ [v]"
  let ?mc = "relax d (length d) v ?vis (me, c)"
  have inv': "primInv d ?vis (fst ?mc) (snd ?mc)"
    by (rule relax_inv [OF inv fm v])
  have k: "k = length d - length ?vis" using Suc.hyps(2) by simp
  from Suc.hyps(1) [OF k inv', of "edges @ [(c ! v, v, me ! v)]"]
  obtain es where es: "primLoop d (length d) ?vis (fst ?mc) (snd ?mc) (edges @ [(c ! v, v, me ! v)])
       = Some ((edges @ [(c ! v, v, me ! v)]) @ es)"
     "length es = length d - length ?vis" "primTrace d ?vis es"
    by blast
  have step: "primLoop d (length d) visited me c edges = Some (edges @ ((c ! v, v, me ! v) # es))"
    using lt fn es(1) by (subst primLoop.simps) (simp add: Let_def)
  from inv v have cv: "c ! v \<in> set visited" "me ! v = Fin (wt d (c ! v) v)"
    by (auto simp: primInv_def)
  from inv have sub: "set visited \<subseteq> {..<length d}" by (auto simp: primInv_def)
  have wcell: "me ! v = cell d (c ! v) v"
    using cv sub v fm by (auto simp: cell_wt)
  have minp: "\<forall>u \<in> set [0..<length d]. u \<notin> set visited \<longrightarrow>
            (\<forall>x \<in> set visited. nle (me ! v) (cell d x u) \<and> (u < v \<longrightarrow> nlt (me ! v) (cell d x u)))"
  proof (intro ballI impI)
    fix u x assume u: "u \<in> set [0..<length d]" "u \<notin> set visited" and x: "x \<in> set visited"
    then have un: "u < length d" by simp
    from x sub have xn: "x < length d" by auto
    from inv un u x have mu: "me ! u = Fin (wt d (c ! u) u)" "wt d (c ! u) u \<le> wt d x u"
      by (auto simp: primInv_def)
    have cx: "cell d x u = Fin (wt d x u)" using fm xn un by (simp add: cell_wt)
    from mn un u have "nle (me ! v) (me ! u)" "u < v \<longrightarrow> nlt (me ! v) (me ! u)" by auto
    with mu cv cx show "nle (me ! v) (cell d x u) \<and> (u < v \<longrightarrow> nlt (me ! v) (cell d x u))"
      by auto
  qed
  have "primTrace d visited ((c ! v, v, me ! v) # es)"
    using v cv(1) wcell minp es(3) by simp
  with step es(2) lt show ?case
    by (intro exI [of _ "(c ! v, v, me ! v) # es"]) auto
qed

text \<open>
  Claim C8. For a square matrix of finite weights over at least two points (symmetric
  or not) \<open>buildMinimumSpanningTree\<close> returns, and what it returns is a list of
  \<open>n - 1\<close> edges that is the run of Prim's algorithm from vertex \<open>0\<close>, in the order of
  discovery, with the smallest index chosen among the unvisited vertices of least
  candidate weight.
\<close>

theorem buildMinimumSpanningTree_prim:
  assumes "finiteMatrix d" and "2 \<le> length d"
  shows "\<exists>es. buildMinimumSpanningTree d = Some es \<and> length es = length d - 1 \<and> primTrace d [0] es"
proof -
  let ?n = "length d"
  let ?me = "map (\<lambda>i. if i = 0 then PInf else cell d 0 i) [0..<?n]"
  have "\<And>u. u < ?n \<Longrightarrow> cell d 0 u = Fin (wt d 0 u)"
    using assms by (intro cell_wt) auto
  then have "primInv d [0] ?me (replicate ?n 0)"
    using assms by (auto simp: primInv_def)
  from primLoop_correct [OF assms(1) this, of "[]"] show ?thesis
    by (simp add: buildMinimumSpanningTree_def Let_def )
qed

section \<open>The disjoint sets\<close>

lemma reach_bounds: "reach l x r k \<Longrightarrow> x < length l \<and> r < length l \<and> l ! r = r"
  by (induction rule: reach.induct) auto

lemma reach_det: "reach l x r k \<Longrightarrow> reach l x r' k' \<Longrightarrow> r = r' \<and> k = k'"
proof (induction arbitrary: r' k' rule: reach.induct)
  case (reach_root x)
  from reach_root.prems reach_root.hyps show ?case
    by (cases rule: reach.cases) auto
next
  case (reach_step x r k)
  from reach_step.prems reach_step.hyps(1,2) obtain k0 where "k' = Suc k0" "reach l (l ! x) r' k0"
    by (cases rule: reach.cases) auto
  with reach_step.IH show ?case by auto
qed

lemma rootOf_det: "rootOf l x r \<Longrightarrow> rootOf l x r' \<Longrightarrow> r = r'"
  by (auto simp: rootOf_def dest: reach_det)

lemma reach_iter: "reach l x r k \<Longrightarrow> j \<le> k \<Longrightarrow> reach l (((!) l ^^ j) x) r (k - j)"
proof (induction j)
  case 0
  then show ?case by simp
next
  case (Suc j)
  then have r: "reach l (((!) l ^^ j) x) r (k - j)" and lt: "j < k" by auto
  from lt obtain m where m: "k - j = Suc m" by (cases "k - j") auto
  from r [unfolded m] have "reach l (l ! (((!) l ^^ j) x)) r m"
    by (cases rule: reach.cases) auto
  moreover from m have "k - Suc j = m" by simp
  ultimately show ?case by simp
qed

lemma reach_depth:
  assumes r: "reach l x r k"
  shows "k < length l"
proof -
  let ?f = "\<lambda>j. ((!) l ^^ j) x"
  have inj: "inj_on ?f {..k}"
  proof (rule inj_onI)
    fix i j assume i: "i \<in> {..k}" and j: "j \<in> {..k}" and e: "?f i = ?f j"
    from reach_iter [OF r, of i] i have "reach l (?f i) r (k - i)" by simp
    moreover from reach_iter [OF r, of j] j have "reach l (?f j) r (k - j)" by simp
    ultimately have "k - i = k - j" using e reach_det [of l "?f i" r "k - i" r "k - j"] by simp
    with i j show "i = j" by simp
  qed
  have "?f ` {..k} \<subseteq> {..<length l}"
  proof
    fix y assume "y \<in> ?f ` {..k}"
    then obtain j where j: "j \<le> k" "y = ?f j" by auto
    from reach_iter [OF r j(1)] j(2) show "y \<in> {..<length l}"
      by (auto dest: reach_bounds)
  qed
  then have "card (?f ` {..k}) \<le> card {..<length l}"
    by (intro card_mono) auto
  with inj show ?thesis by (simp add: card_image)
qed

lemma ufSound_reach: "reach l x r k \<Longrightarrow> ufSound f l \<Longrightarrow> f r = f x"
  by (induction rule: reach.induct) (auto simp: ufSound_def)

lemma ufSound_rootOf: "ufSound f l \<Longrightarrow> rootOf l x r \<Longrightarrow> f r = f x"
  by (auto simp: rootOf_def dest: ufSound_reach)

lemma rootOf_root: "r < length l \<Longrightarrow> l ! r = r \<Longrightarrow> rootOf l r r"
  unfolding rootOf_def by (blast intro: reach_root)

lemma rootOf_bounds: "rootOf l x r \<Longrightarrow> x < length l \<and> r < length l \<and> l ! r = r"
  by (auto simp: rootOf_def dest: reach_bounds)

lemma rootOf_step: "x < length l \<Longrightarrow> l ! x \<noteq> x \<Longrightarrow> rootOf l (l ! x) r \<Longrightarrow> rootOf l x r"
  unfolding rootOf_def by (blast intro: reach_step)

text \<open>Path compression keeps every root.\<close>

lemma compress_rootOf:
  assumes xr: "rootOf l x r"
  shows "reach l y r' k \<Longrightarrow> rootOf (l[x := r]) y r'"
proof (induction rule: reach.induct)
  case (reach_root y)
  have "(l[x := r]) ! y = y"
  proof (cases "y = x")
    case True
    from reach_root have "rootOf l y y" by (rule rootOf_root)
    with True have "rootOf l x y" by simp
    from rootOf_det [OF xr this] True reach_root(1) show ?thesis by simp
  next
    case False
    with reach_root(2) show ?thesis by simp
  qed
  moreover have "y < length (l[x := r])" using reach_root(1) by simp
  ultimately show ?case by (rule rootOf_root [rotated])
next
  case (reach_step y r' k)
  note ih = reach_step.IH
  show ?case
  proof (cases "y = x")
    case True
    from reach_step.hyps have "reach l y r' (Suc k)" by (rule reach.reach_step)
    then have "rootOf l y r'" unfolding rootOf_def by blast
    with True have "rootOf l x r'" by simp
    from rootOf_det [OF xr this] have rr: "r' = r" by simp
    from rootOf_bounds [OF xr] have rb: "r < length l" "l ! r = r" by simp_all
    from rb(2) reach_step.hyps(2) True have ne: "r \<noteq> x" by auto
    from ne rb have "r < length (l[x := r])" "(l[x := r]) ! r = r" by simp_all
    then have rr2: "rootOf (l[x := r]) r r" by (rule rootOf_root)
    have a: "x < length (l[x := r])" using reach_step.hyps(1) True by simp
    have b: "(l[x := r]) ! x \<noteq> x" using a ne by simp
    have c: "rootOf (l[x := r]) ((l[x := r]) ! x) r" using a rr2 by simp
    from rootOf_step [OF a b c] True rr show ?thesis by simp
  next
    case False
    have a: "y < length (l[x := r])" using reach_step.hyps(1) by simp
    have e: "(l[x := r]) ! y = l ! y" using False by simp
    have b: "(l[x := r]) ! y \<noteq> y" using e reach_step.hyps(2) by simp
    have c: "rootOf (l[x := r]) ((l[x := r]) ! y) r'" using e ih by simp
    from rootOf_step [OF a b c] show ?thesis .
  qed
qed

lemma compress_rootOf':
  assumes "rootOf l x r" and "rootOf l y r'"
  shows "rootOf (l[x := r]) y r'"
proof -
  from assms(2) obtain k where "reach l y r' k" unfolding rootOf_def by blast
  from compress_rootOf [OF assms(1) this] show ?thesis .
qed

text \<open>Linking the root \<open>ry\<close> below the root \<open>rx\<close> sends the class of \<open>ry\<close> to \<open>rx\<close>.\<close>

lemma union_rootOf:
  assumes rx: "rx < length l" "l ! rx = rx" and ry: "ry < length l" "l ! ry = ry" and ne: "rx \<noteq> ry"
  shows "reach l y r k \<Longrightarrow> rootOf (l[ry := rx]) y (if r = ry then rx else r)"
proof (induction rule: reach.induct)
  case (reach_root y)
  from rx ne have rxx: "rootOf (l[ry := rx]) rx rx" by (simp add: rootOf_root)
  show ?case
  proof (cases "y = ry")
    case True
    have a: "ry < length (l[ry := rx])" using ry by simp
    have b: "(l[ry := rx]) ! ry \<noteq> ry" using ry ne by simp
    have c: "rootOf (l[ry := rx]) ((l[ry := rx]) ! ry) rx" using ry rxx by simp
    from rootOf_step [OF a b c] True show ?thesis by simp
  next
    case False
    with reach_root have "y < length (l[ry := rx])" "(l[ry := rx]) ! y = y" by simp_all
    then have "rootOf (l[ry := rx]) y y" by (rule rootOf_root)
    with False show ?thesis by simp
  qed
next
  case (reach_step y r k)
  from ry reach_step.hyps(2) have yne: "y \<noteq> ry" by auto
  have a: "y < length (l[ry := rx])" using reach_step.hyps(1) by simp
  have e: "(l[ry := rx]) ! y = l ! y" using yne by simp
  have b: "(l[ry := rx]) ! y \<noteq> y" using e reach_step.hyps(2) by simp
  have c: "rootOf (l[ry := rx]) ((l[ry := rx]) ! y) (if r = ry then rx else r)"
    using e reach_step.IH by simp
  from rootOf_step [OF a b c] show ?case .
qed

lemma find_uf_correct:
  "reach l x r k \<Longrightarrow> k < fuel \<Longrightarrow>
   \<exists>l'. find_uf fuel x l = Inr (r, l') \<and> length l' = length l
        \<and> (\<forall>y r'. rootOf l y r' \<longrightarrow> rootOf l' y r')
        \<and> (\<forall>y<length l. l' ! y = l ! y \<or> (l' ! y = r \<and> rootOf l y r))"
proof (induction arbitrary: fuel rule: reach.induct)
  case (reach_root x)
  then obtain f where "fuel = Suc f" by (cases fuel) auto
  with reach_root show ?case by auto
next
  case (reach_step x r k)
  then obtain f where f: "fuel = Suc f" "k < f" by (cases fuel) auto
  from reach_step.IH [OF f(2)] obtain l1 where l1: "find_uf f (l ! x) l = Inr (r, l1)"
    "length l1 = length l" "\<forall>y r'. rootOf l y r' \<longrightarrow> rootOf l1 y r'"
    "\<forall>y<length l. l1 ! y = l ! y \<or> (l1 ! y = r \<and> rootOf l y r)"
    by blast
  have xr: "rootOf l x r"
    using reach_step.hyps unfolding rootOf_def by (blast intro: reach.reach_step)
  with l1(3) have xr1: "rootOf l1 x r" by blast
  have res: "find_uf fuel x l = Inr (r, l1[x := r])"
    using f reach_step.hyps l1(1) by simp
  have pres: "\<forall>y r'. rootOf l y r' \<longrightarrow> rootOf (l1[x := r]) y r'"
    using l1(3) xr1 by (blast intro: compress_rootOf')
  have pt: "\<forall>y<length l. (l1[x := r]) ! y = l ! y \<or> ((l1[x := r]) ! y = r \<and> rootOf l y r)"
  proof (intro allI impI)
    fix y assume y: "y < length l"
    show "(l1[x := r]) ! y = l ! y \<or> ((l1[x := r]) ! y = r \<and> rootOf l y r)"
    proof (cases "y = x")
      case True
      with xr y l1(2) show ?thesis by simp
    next
      case False
      with l1(4) y show ?thesis by simp
    qed
  qed
  from res pres pt l1(2) show ?case by simp
qed

lemma find_top_correct:
  assumes v: "ufValid l" and x: "x < length l"
  shows "\<exists>r l'. find_top x l = Inr (r, l') \<and> rootOf l x r \<and> length l' = length l \<and> ufValid l'
        \<and> (\<forall>y r'. rootOf l y r' \<longrightarrow> rootOf l' y r')
        \<and> (\<forall>f. ufSound f l \<longrightarrow> ufSound f l')"
proof -
  from v x obtain r k where r: "reach l x r k" by (auto simp: ufValid_def rootOf_def)
  from find_uf_correct [OF r reach_depth [OF r]] obtain l' where l': 
    "find_uf (length l) x l = Inr (r, l')" "length l' = length l"
    "\<forall>y r'. rootOf l y r' \<longrightarrow> rootOf l' y r'"
    "\<forall>y<length l. l' ! y = l ! y \<or> (l' ! y = r \<and> rootOf l y r)"
    by blast
  have "ufValid l'"
    unfolding ufValid_def
  proof (intro allI impI)
    fix y assume "y < length l'"
    with v l'(2) obtain r0 where "rootOf l y r0" by (auto simp: ufValid_def)
    with l'(3) show "\<exists>r. rootOf l' y r" by blast
  qed
  moreover have "\<forall>f. ufSound f l \<longrightarrow> ufSound f l'"
  proof (intro allI impI)
    fix f :: "nat \<Rightarrow> 'b" assume s: "ufSound f l"
    show "ufSound f l'"
      unfolding ufSound_def
    proof (intro allI impI)
      fix y assume "y < length l'"
      with l'(2,4) have "l' ! y = l ! y \<or> (l' ! y = r \<and> rootOf l y r)" by simp
      moreover have "l' ! y = l ! y \<Longrightarrow> f (l' ! y) = f y"
        using s \<open>y < length l'\<close> l'(2) by (simp add: ufSound_def)
      moreover have "rootOf l y r \<Longrightarrow> f r = f y"
        using s by (rule ufSound_rootOf)
      ultimately show "f (l' ! y) = f y" by auto
    qed
  qed
  moreover have "rootOf l x r" using r unfolding rootOf_def by blast
  moreover have "find_top x l = Inr (r, l')" using l'(1) by (simp add: find_top_def)
  ultimately show ?thesis using l'(2,3) by blast
qed

lemma rt_eq: "rootOf l x r \<Longrightarrow> rt l x = r"
  unfolding rt_def by (rule the_equality) (auto dest: rootOf_det)

lemma rt_rootOf: "ufValid l \<Longrightarrow> x < length l \<Longrightarrow> rootOf l x (rt l x)"
  by (auto simp: ufValid_def dest: rt_eq)

lemma sameRoot_rt: "ufValid l \<Longrightarrow> x < length l \<Longrightarrow> y < length l \<Longrightarrow> sameRoot l x y \<longleftrightarrow> rt l x = rt l y"
proof
  assume "sameRoot l x y"
  then obtain r where "rootOf l x r" "rootOf l y r" unfolding sameRoot_def by blast
  then show "rt l x = rt l y" by (simp add: rt_eq)
next
  assume v: "ufValid l" "x < length l" "y < length l" and e: "rt l x = rt l y"
  from v have "rootOf l x (rt l x)" "rootOf l y (rt l y)" by (simp_all add: rt_rootOf)
  with e show "sameRoot l x y" unfolding sameRoot_def by auto
qed

lemma union_rootOf':
  assumes rx: "rx < length l" "l ! rx = rx" and ry: "ry < length l" "l ! ry = ry" and ne: "rx \<noteq> ry"
    and yr: "rootOf l y r"
  shows "rootOf (l[ry := rx]) y (if r = ry then rx else r)"
proof -
  from yr obtain k where "reach l y r k" unfolding rootOf_def by blast
  from union_rootOf [OF rx ry ne this] show ?thesis .
qed

lemma unionEdge_correct:
  assumes v: "ufValid l" and b: "s \<in> set points \<and> d \<in> set points \<longrightarrow> s < length l \<and> d < length l"
  shows "\<exists>l'. unionEdge points (s, d, w) l = Inr l' \<and> ufValid l' \<and> length l' = length l
          \<and> (\<forall>x y. sameRoot l x y \<longrightarrow> sameRoot l' x y)
          \<and> (s \<in> set points \<and> d \<in> set points \<longrightarrow> sameRoot l' s d)
          \<and> (\<forall>f. ufSound f l \<and> (s \<in> set points \<and> d \<in> set points \<longrightarrow> f s = f d) \<longrightarrow> ufSound f l')"
proof (cases "s \<in> set points \<and> d \<in> set points")
  case False
  then have "unionEdge points (s, d, w) l = Inr l" by (auto simp: unionEdge_def)
  with v False show ?thesis by auto
next
  case True
  with b have sl: "s < length l" and dl: "d < length l" by auto
  from find_top_correct [OF v sl] obtain rx p1 where p1: "find_top s l = Inr (rx, p1)"
    "rootOf l s rx" "length p1 = length l" "ufValid p1"
    "\<forall>y r'. rootOf l y r' \<longrightarrow> rootOf p1 y r'" "\<forall>f::nat \<Rightarrow> 'a. ufSound f l \<longrightarrow> ufSound f p1"
    by blast
  from dl p1(3) have dl1: "d < length p1" by simp
  from find_top_correct [OF p1(4) dl1] obtain ry p2 where p2: "find_top d p1 = Inr (ry, p2)"
    "rootOf p1 d ry" "length p2 = length p1" "ufValid p2"
    "\<forall>y r'. rootOf p1 y r' \<longrightarrow> rootOf p2 y r'" "\<forall>f::nat \<Rightarrow> 'a. ufSound f p1 \<longrightarrow> ufSound f p2"
    by blast
  have srx: "rootOf p2 s rx" using p1(2,5) p2(5) by blast
  have dry: "rootOf p2 d ry" using p2(2,5) by blast
  have pres: "\<forall>y r'. rootOf l y r' \<longrightarrow> rootOf p2 y r'" using p1(5) p2(5) by blast
  have snd2: "\<forall>f::nat \<Rightarrow> 'a. ufSound f l \<longrightarrow> ufSound f p2" using p1(6) p2(6) by blast
  show ?thesis
  proof (cases "rx = ry")
    case Eq: True
    have res: "unionEdge points (s, d, w) l = Inr p2"
      using True p1(1) p2(1) Eq by (simp add: unionEdge_def)
    have "sameRoot p2 s d" using srx dry Eq unfolding sameRoot_def by auto
    moreover have "\<forall>x y. sameRoot l x y \<longrightarrow> sameRoot p2 x y"
      using pres unfolding sameRoot_def by blast
    ultimately show ?thesis using res p2(3,4) p1(3) snd2 by auto
  next
    case Ne: False
    let ?l' = "p2[ry := rx]"
    have res: "unionEdge points (s, d, w) l = Inr ?l'"
      using True p1(1) p2(1) Ne by (simp add: unionEdge_def)
    from rootOf_bounds [OF srx] have rx: "rx < length p2" "p2 ! rx = rx" by simp_all
    from rootOf_bounds [OF dry] have ry: "ry < length p2" "p2 ! ry = ry" by simp_all
    have mp: "\<And>y r. rootOf p2 y r \<Longrightarrow> rootOf ?l' y (if r = ry then rx else r)"
      by (rule union_rootOf' [OF rx ry Ne])
    have val: "ufValid ?l'"
      unfolding ufValid_def
    proof (intro allI impI)
      fix y assume "y < length ?l'"
      with p2(4) obtain r where "rootOf p2 y r" by (auto simp: ufValid_def)
      from mp [OF this] show "\<exists>r. rootOf ?l' y r" by blast
    qed
    have same: "\<forall>x y. sameRoot l x y \<longrightarrow> sameRoot ?l' x y"
    proof (intro allI impI)
      fix x y assume "sameRoot l x y"
      then obtain r where "rootOf l x r" "rootOf l y r" unfolding sameRoot_def by blast
      with pres have "rootOf p2 x r" "rootOf p2 y r" by blast+
      from mp [OF this(1)] mp [OF this(2)] show "sameRoot ?l' x y"
        unfolding sameRoot_def by blast
    qed
    have sd: "sameRoot ?l' s d"
      using mp [OF srx] mp [OF dry] Ne unfolding sameRoot_def by auto
    have snd': "\<forall>f::nat \<Rightarrow> 'a. ufSound f l \<and> (s \<in> set points \<and> d \<in> set points \<longrightarrow> f s = f d) \<longrightarrow> ufSound f ?l'"
    proof (intro allI impI)
      fix f :: "nat \<Rightarrow> 'a" assume a: "ufSound f l \<and> (s \<in> set points \<and> d \<in> set points \<longrightarrow> f s = f d)"
      with snd2 have s2: "ufSound f p2" by blast
      from a True have fsd: "f s = f d" by blast
      from ufSound_rootOf [OF s2 srx] ufSound_rootOf [OF s2 dry] fsd have "f rx = f ry" by simp
      with s2 ry show "ufSound f ?l'"
        by (auto simp: ufSound_def nth_list_update)
    qed
    from res val same sd snd' p2(3) p1(3) show ?thesis by auto
  qed
qed

lemma foldE_unionEdge:
  assumes sub: "set points \<subseteq> {..<n}"
  shows "ufValid l \<Longrightarrow> length l = n \<Longrightarrow>
     \<exists>l'. foldE (unionEdge points) es l = Inr l' \<and> ufValid l' \<and> length l' = n
          \<and> (\<forall>x y. sameRoot l x y \<longrightarrow> sameRoot l' x y)
          \<and> (\<forall>(s, d, w) \<in> set es. s \<in> set points \<and> d \<in> set points \<longrightarrow> sameRoot l' s d)
          \<and> (\<forall>f. ufSound f l \<and> (\<forall>(s, d, w) \<in> set es. s \<in> set points \<and> d \<in> set points \<longrightarrow> f s = f d)
                 \<longrightarrow> ufSound f l')"
proof (induction es arbitrary: l)
  case Nil
  then show ?case by auto
next
  case (Cons e es)
  obtain s d w where e: "e = (s, d, w)" by (cases e) auto
  have b: "s \<in> set points \<and> d \<in> set points \<longrightarrow> s < length l \<and> d < length l"
    using sub Cons.prems(2) by auto
  from unionEdge_correct [OF Cons.prems(1) b, of w] obtain l1 where l1:
    "unionEdge points (s, d, w) l = Inr l1" "ufValid l1" "length l1 = length l"
    "\<forall>x y. sameRoot l x y \<longrightarrow> sameRoot l1 x y"
    "s \<in> set points \<and> d \<in> set points \<longrightarrow> sameRoot l1 s d"
    "\<forall>f::nat \<Rightarrow> 'a. ufSound f l \<and> (s \<in> set points \<and> d \<in> set points \<longrightarrow> f s = f d) \<longrightarrow> ufSound f l1"
    by blast
  from l1(3) Cons.prems(2) have n1: "length l1 = n" by simp
  from Cons.IH [OF l1(2) n1] obtain l' where l': 
    "foldE (unionEdge points) es l1 = Inr l'" "ufValid l'" "length l' = n"
    "\<forall>x y. sameRoot l1 x y \<longrightarrow> sameRoot l' x y"
    "\<forall>(s, d, w) \<in> set es. s \<in> set points \<and> d \<in> set points \<longrightarrow> sameRoot l' s d"
    "\<forall>f::nat \<Rightarrow> 'a. ufSound f l1 \<and> (\<forall>(s, d, w) \<in> set es. s \<in> set points \<and> d \<in> set points \<longrightarrow> f s = f d)
                 \<longrightarrow> ufSound f l'"
    by blast
  have res: "foldE (unionEdge points) (e # es) l = Inr l'"
    using e l1(1) l'(1) by simp
  have a: "\<forall>x y. sameRoot l x y \<longrightarrow> sameRoot l' x y" using l1(4) l'(4) by blast
  have c: "\<forall>(s, d, w) \<in> set (e # es). s \<in> set points \<and> d \<in> set points \<longrightarrow> sameRoot l' s d"
    using e l1(5) l'(4,5) by auto
  have f: "\<forall>f::nat \<Rightarrow> 'a. ufSound f l \<and> (\<forall>(s, d, w) \<in> set (e # es). s \<in> set points \<and> d \<in> set points \<longrightarrow> f s = f d)
                 \<longrightarrow> ufSound f l'"
    using e l1(6) l'(6) by auto
  from res l'(2,3) a c f show ?case by blast
qed

lemma pts_Nil: "pts [] = []"
  by (simp add: pts_def)

lemma pts_Cons: "pts ((r, qs) # cs) = qs @ pts cs"
  by (simp add: pts_def)

lemma pts_snoc: "pts (cs @ [(r, qs)]) = pts cs @ qs"
  by (simp add: pts_def)

lemma addTo_Nil: "addTo k p [] = []"
  by (simp add: addTo_def)

lemma addTo_Cons:
  "addTo k p ((r, ps) # cs) = (if r = k then (r, ps @ [p]) else (r, ps)) # addTo k p cs"
  by (simp add: addTo_def)

lemma addTo_fst: "map fst (addTo k p comps) = map fst comps"
  by (induction comps) (auto simp: addTo_Nil addTo_Cons)

lemma addTo_absent: "k \<notin> fst ` set comps \<Longrightarrow> addTo k p comps = comps"
  by (induction comps) (auto simp: addTo_Nil addTo_Cons)

lemma addTo_set_le: "set (pts (addTo k p comps)) \<subseteq> insert p (set (pts comps))"
proof (induction comps)
  case Nil
  then show ?case by (simp add: addTo_Nil pts_Nil)
next
  case (Cons a comps)
  obtain r qs where a: "a = (r, qs)" by (cases a) auto
  from Cons show ?case
    unfolding a by (cases "r = k") (auto simp: addTo_Cons pts_Cons)
qed

lemma addTo_set:
  "k \<in> fst ` set comps \<Longrightarrow> set (pts (addTo k p comps)) = insert p (set (pts comps))"
proof (induction comps)
  case Nil
  then show ?case by simp
next
  case (Cons a comps)
  obtain r qs where a: "a = (r, qs)" by (cases a) auto
  show ?case
  proof (cases "k \<in> fst ` set comps")
    case True
    with Cons.IH have "set (pts (addTo k p comps)) = insert p (set (pts comps))" by simp
    then show ?thesis
      unfolding a by (cases "r = k") (auto simp: addTo_Cons pts_Cons)
  next
    case False
    with Cons.prems a have "r = k" by auto
    moreover from False have "addTo k p comps = comps" by (rule addTo_absent)
    ultimately show ?thesis
      unfolding a by (auto simp: addTo_Cons pts_Cons)
  qed
qed

lemma addTo_distinct:
  "distinct (map fst comps) \<Longrightarrow> distinct (pts comps) \<Longrightarrow>
   p \<notin> set (pts comps) \<Longrightarrow> distinct (pts (addTo k p comps))"
proof (induction comps)
  case Nil
  then show ?case by (simp add: addTo_Nil)
next
  case (Cons a comps)
  obtain r qs where a: "a = (r, qs)" by (cases a) auto
  from Cons.prems have p1: "distinct (map fst comps)" "r \<notin> fst ` set comps"
    and p2: "distinct qs" "distinct (pts comps)" "set qs \<inter> set (pts comps) = {}"
    and p3: "p \<notin> set qs" "p \<notin> set (pts comps)"
    unfolding a by (auto simp: pts_Cons)
  show ?case
  proof (cases "r = k")
    case True
    with p1 have "addTo k p comps = comps" by (intro addTo_absent) simp
    with True p2 p3 show ?thesis
      unfolding a by (auto simp: addTo_Cons pts_Cons)
  next
    case False
    from Cons.IH [OF p1(1) p2(2) p3(2)] have d: "distinct (pts (addTo k p comps))" .
    from addTo_set_le [of k p comps] p2(3) p3(1)
    have "set qs \<inter> set (pts (addTo k p comps)) = {}" by auto
    with d p2(1) False show ?thesis
      unfolding a by (simp add: addTo_Cons pts_Cons)
  qed
qed

lemma addTo_entries:
  assumes "\<forall>(r, qs) \<in> set comps. qs \<noteq> [] \<and> (\<forall>q \<in> set qs. key q = r)"
  shows "\<forall>(r, qs) \<in> set (addTo (key p) p comps). qs \<noteq> [] \<and> (\<forall>q \<in> set qs. key q = r)"
  using assms
proof (induction comps)
  case Nil
  then show ?case by (simp add: addTo_Nil)
next
  case (Cons a comps)
  obtain r qs where a: "a = (r, qs)" by (cases a) auto
  from Cons.prems have h: "qs \<noteq> []" "\<forall>q \<in> set qs. key q = r"
    and t: "\<forall>(r, qs) \<in> set comps. qs \<noteq> [] \<and> (\<forall>q \<in> set qs. key q = r)"
    unfolding a by auto
  from Cons.IH [OF t] h show ?case
    unfolding a by (cases "r = key p") (auto simp: addTo_Cons)
qed

lemma addPoint_inv:
  assumes g: "groupInv key comps S" and p: "p \<notin> S"
  shows "groupInv key (addPoint (key p) p comps) (insert p S)"
proof -
  from g have keys: "distinct (map fst comps)"
    and ent: "\<forall>(r, qs) \<in> set comps. qs \<noteq> [] \<and> (\<forall>q \<in> set qs. key q = r)"
    and cov: "set (pts comps) = S" and dis: "distinct (pts comps)"
    by (auto simp: groupInv_def pts_def)
  show ?thesis
  proof (cases "key p \<in> fst ` set comps")
    case True
    then have e: "addPoint (key p) p comps = addTo (key p) p comps"
      by (simp add: addPoint_def addTo_def)
    have 1: "distinct (map fst (addTo (key p) p comps))" using keys by (simp add: addTo_fst)
    have 2: "\<forall>(r, qs) \<in> set (addTo (key p) p comps). qs \<noteq> [] \<and> (\<forall>q \<in> set qs. key q = r)"
      using ent by (rule addTo_entries)
    have 3: "set (pts (addTo (key p) p comps)) = insert p S"
      using True cov by (simp add: addTo_set)
    have 4: "distinct (pts (addTo (key p) p comps))"
      using keys dis p cov by (intro addTo_distinct) auto
    from 1 2 3 4 show ?thesis
      unfolding e groupInv_def pts_def by blast
  next
    case False
    then have e: "addPoint (key p) p comps = comps @ [(key p, [p])]"
      by (simp add: addPoint_def)
    have 1: "distinct (map fst (comps @ [(key p, [p])]))" using keys False by auto
    have 2: "\<forall>(r, qs) \<in> set (comps @ [(key p, [p])]). qs \<noteq> [] \<and> (\<forall>q \<in> set qs. key q = r)"
      using ent by auto
    have 3: "set (pts (comps @ [(key p, [p])])) = insert p S"
      using cov by (simp add: pts_snoc)
    have 4: "distinct (pts (comps @ [(key p, [p])]))"
      using dis p cov by (simp add: pts_snoc)
    from 1 2 3 4 show ?thesis
      unfolding e groupInv_def pts_def by blast
  qed
qed

lemma foldl_addPoint_inv:
  "distinct ps \<Longrightarrow> groupInv key comps S \<Longrightarrow> set ps \<inter> S = {} \<Longrightarrow>
   groupInv key (foldl (\<lambda>c p. addPoint (key p) p c) comps ps) (S \<union> set ps)"
proof (induction ps arbitrary: comps S)
  case Nil
  then show ?case by simp
next
  case (Cons p ps)
  from Cons.prems have "p \<notin> S" by auto
  with Cons.prems(2) have g: "groupInv key (addPoint (key p) p comps) (insert p S)"
    by (rule addPoint_inv)
  from Cons.prems have "distinct ps" "set ps \<inter> insert p S = {}" by auto
  from Cons.IH [OF this(1) g this(2)] show ?case by simp
qed

lemma groupPoint_correct:
  assumes v: "ufValid l" and p: "p < length l"
  shows "\<exists>l'. groupPoint p (l, comps) = Inr (l', addPoint (rt l p) p comps) \<and> ufValid l'
          \<and> length l' = length l \<and> (\<forall>y<length l. rt l' y = rt l y)
          \<and> (\<forall>f. ufSound f l \<longrightarrow> ufSound f l')"
proof -
  from find_top_correct [OF v p] obtain r l' where l': "find_top p l = Inr (r, l')"
    "rootOf l p r" "length l' = length l" "ufValid l'"
    "\<forall>y r'. rootOf l y r' \<longrightarrow> rootOf l' y r'" "\<forall>f::nat \<Rightarrow> 'a. ufSound f l \<longrightarrow> ufSound f l'"
    by blast
  have "\<forall>y<length l. rt l' y = rt l y"
  proof (intro allI impI)
    fix y assume "y < length l"
    with v have "rootOf l y (rt l y)" by (simp add: rt_rootOf)
    with l'(5) have "rootOf l' y (rt l y)" by blast
    then show "rt l' y = rt l y" by (rule rt_eq)
  qed
  moreover have "groupPoint p (l, comps) = Inr (l', addPoint (rt l p) p comps)"
    using l'(1) rt_eq [OF l'(2)] by (simp add: groupPoint_def)
  ultimately show ?thesis using l'(3,4,6) by blast
qed

lemma foldE_groupPoint:
  "ufValid l \<Longrightarrow> set ps \<subseteq> {..<length l} \<Longrightarrow>
   \<exists>l'. foldE groupPoint ps (l, comps) = Inr (l', foldl (\<lambda>c p. addPoint (rt l p) p c) comps ps)"
proof (induction ps arbitrary: l comps)
  case Nil
  then show ?case by simp
next
  case (Cons p ps)
  from Cons.prems have p: "p < length l" by simp
  from groupPoint_correct [OF Cons.prems(1) p, of comps] obtain l1 where l1:
    "groupPoint p (l, comps) = Inr (l1, addPoint (rt l p) p comps)" "ufValid l1"
    "length l1 = length l" "\<forall>y<length l. rt l1 y = rt l y"
    by blast
  from Cons.prems l1(3) have sub: "set ps \<subseteq> {..<length l1}" by simp
  from Cons.IH [OF l1(2) sub, of "addPoint (rt l p) p comps"] obtain l' where
    l': "foldE groupPoint ps (l1, addPoint (rt l p) p comps)
          = Inr (l', foldl (\<lambda>c p. addPoint (rt l1 p) p c) (addPoint (rt l p) p comps) ps)"
    by blast
  have "foldl (\<lambda>c p. addPoint (rt l1 p) p c) (addPoint (rt l p) p comps) ps
      = foldl (\<lambda>c p. addPoint (rt l p) p c) (addPoint (rt l p) p comps) ps"
  proof (rule foldl_cong)
    fix a x assume "x \<in> set ps"
    with Cons.prems have "x < length l" by auto
    with l1(4) show "addPoint (rt l1 x) x a = addPoint (rt l x) x a" by simp
  qed simp_all
  with l1(1) l' show ?case by simp
qed

lemma init_valid: "ufValid [0..<n]"
  unfolding ufValid_def
proof (intro allI impI)
  fix x assume "x < length [0..<n]"
  then have "rootOf [0..<n] x x" by (intro rootOf_root) simp_all
  then show "\<exists>r. rootOf [0..<n] x r" by blast
qed

lemma init_sound: "ufSound f [0..<n]"
  by (simp add: ufSound_def)

text \<open>
  The components returned by \<open>splitClusterAtEdge\<close> for distinct points below the length
  of the parent array: the call returns; the components are non-empty, pairwise
  disjoint and cover the points; the two ends of every later edge that passes the
  filter and lies in the cluster are in one component; and whatever function is equal
  on the two ends of every later edge in the cluster is constant on each component.
\<close>

lemma splitClusterAtEdge_correct:
  assumes sub: "set points \<subseteq> {..<length (sortedEdges st) + 1}" and dist: "distinct points"
  shows "\<exists>comps. splitClusterAtEdge st points (rs, rd, w) es = Inr comps
        \<and> set (concat comps) = set points \<and> distinct (concat comps) \<and> (\<forall>c \<in> set comps. c \<noteq> [])
        \<and> (\<forall>(s, d, w') \<in> set es. nle w' w \<and> s \<in> set points \<and> d \<in> set points \<longrightarrow>
              (\<exists>c \<in> set comps. s \<in> set c \<and> d \<in> set c))
        \<and> (\<forall>f. (\<forall>(s, d, w') \<in> set es. s \<in> set points \<and> d \<in> set points \<longrightarrow> f s = f d) \<longrightarrow>
              (\<forall>c \<in> set comps. \<forall>x \<in> set c. \<forall>y \<in> set c. f x = f y))"
proof -
  let ?n = "length (sortedEdges st) + 1"
  let ?es = "filter (\<lambda>(s, d, w'). nle w' w) es"
  let ?l0 = "[0..<?n]"
  have l0: "length ?l0 = ?n" by simp
  from foldE_unionEdge [OF sub init_valid l0, of ?es] obtain l where l:
    "foldE (unionEdge points) ?es ?l0 = Inr l" "ufValid l" "length l = ?n"
    "\<forall>(s, d, w) \<in> set ?es. s \<in> set points \<and> d \<in> set points \<longrightarrow> sameRoot l s d"
    "\<forall>f::nat \<Rightarrow> 'a. ufSound f ?l0 \<and> (\<forall>(s, d, w) \<in> set ?es. s \<in> set points \<and> d \<in> set points \<longrightarrow> f s = f d)
                 \<longrightarrow> ufSound f l"
    by blast
  from sub l(3) have subl: "set points \<subseteq> {..<length l}" by simp
  let ?g = "foldl (\<lambda>c p. addPoint (rt l p) p c) [] points"
  from foldE_groupPoint [OF l(2) subl, of "[]"] obtain l' where
    l': "foldE groupPoint points (l, []) = Inr (l', ?g)" by blast
  have res: "splitClusterAtEdge st points (rs, rd, w) es = Inr (map snd ?g)"
    using l(1) l' by (simp add: splitClusterAtEdge_def)
  have "groupInv (rt l) [] {}" by (simp add: groupInv_def)
  from foldl_addPoint_inv [OF dist this] have gi: "groupInv (rt l) ?g (set points)" by simp
  then have keys: "distinct (map fst ?g)"
    and ent: "\<forall>(r, qs) \<in> set ?g. qs \<noteq> [] \<and> (\<forall>q \<in> set qs. rt l q = r)"
    and cov: "set (concat (map snd ?g)) = set points"
    and dis: "distinct (concat (map snd ?g))"
    by (auto simp: groupInv_def)
  have ne: "\<forall>c \<in> set (map snd ?g). c \<noteq> []" using ent by auto
  have compl: "\<forall>(s, d, w') \<in> set es. nle w' w \<and> s \<in> set points \<and> d \<in> set points \<longrightarrow>
              (\<exists>c \<in> set (map snd ?g). s \<in> set c \<and> d \<in> set c)"
  proof (intro ballI, clarify)
    fix s d w' assume e: "(s, d, w') \<in> set es" and w: "nle w' w"
      and s: "s \<in> set points" and d: "d \<in> set points"
    from e w have "(s, d, w') \<in> set ?es" by simp
    with l(4) s d have "sameRoot l s d" by blast
    moreover from s d subl have "s < length l" "d < length l" by auto
    ultimately have eq: "rt l s = rt l d" using l(2) by (simp add: sameRoot_rt)
    from s cov obtain r1 c1 where c1: "(r1, c1) \<in> set ?g" "s \<in> set c1" by force
    from d cov obtain r2 c2 where c2: "(r2, c2) \<in> set ?g" "d \<in> set c2" by force
    from ent c1 have "rt l s = r1" by auto
    moreover from ent c2 have "rt l d = r2" by auto
    ultimately have "r1 = r2" using eq by simp
    with keys c1(1) c2(1) have "c1 = c2" by (metis eq_key_imp_eq_value)
    with c1 c2 show "\<exists>c \<in> set (map snd ?g). s \<in> set c \<and> d \<in> set c" by force
  qed
  have snd: "\<forall>f::nat \<Rightarrow> 'a. (\<forall>(s, d, w') \<in> set es. s \<in> set points \<and> d \<in> set points \<longrightarrow> f s = f d) \<longrightarrow>
              (\<forall>c \<in> set (map snd ?g). \<forall>x \<in> set c. \<forall>y \<in> set c. f x = f y)"
  proof (intro allI impI ballI)
    fix f :: "nat \<Rightarrow> 'a" and c x y
    assume h: "\<forall>(s, d, w') \<in> set es. s \<in> set points \<and> d \<in> set points \<longrightarrow> f s = f d"
      and c: "c \<in> set (map snd ?g)" and x: "x \<in> set c" and y: "y \<in> set c"
    from h have "\<forall>(s, d, w) \<in> set ?es. s \<in> set points \<and> d \<in> set points \<longrightarrow> f s = f d" by auto
    with l(5) init_sound [of f ?n] have sl: "ufSound f l" by blast
    from c obtain r where r: "(r, c) \<in> set ?g" by auto
    with ent x y have k: "rt l x = r" "rt l y = r" by auto
    from r x y cov have "x \<in> set points" "y \<in> set points" by force+
    with subl have b: "x < length l" "y < length l" by auto
    from ufSound_rootOf [OF sl rt_rootOf [OF l(2) b(1)]]
      ufSound_rootOf [OF sl rt_rootOf [OF l(2) b(2)]] k
    show "f x = f y" by simp
  qed
  from res cov dis ne compl snd show ?thesis by blast
qed

section \<open>Sorting\<close>

lemma set_insert_cmp: "set (insert_cmp c x xs) = insert x (set xs)"
  by (induction xs) auto

lemma set_sort_cmp: "set (sort_cmp c xs) = set xs"
  by (induction xs) (auto simp: set_insert_cmp)

lemma length_insert_cmp: "length (insert_cmp c x xs) = Suc (length xs)"
  by (induction xs) auto

lemma length_sort_cmp: "length (sort_cmp c xs) = length xs"
  by (induction xs) (auto simp: length_insert_cmp)

lemma distinct_map_insert_cmp:
  "distinct (map f (insert_cmp c x xs)) \<longleftrightarrow> f x \<notin> f ` set xs \<and> distinct (map f xs)"
  by (induction xs) (auto simp: set_insert_cmp)

lemma distinct_map_sort_cmp: "distinct (map f (sort_cmp c xs)) \<longleftrightarrow> distinct (map f xs)"
  by (induction xs) (auto simp: distinct_map_insert_cmp set_sort_cmp)

lemma ltInf_cases: "ltInf a \<longleftrightarrow> a = NInf \<or> (\<exists>r. a = Fin r)"
  by (cases a) auto

lemma isFin_ltInf: "isFin a \<Longrightarrow> ltInf a"
  by (cases a) auto

lemma nle_trans_w: "ltInf a \<Longrightarrow> ltInf b \<Longrightarrow> ltInf c \<Longrightarrow> nle a b \<Longrightarrow> nle b c \<Longrightarrow> nle a c"
  by (cases a; cases b; cases c) auto

lemma nle_refl_w: "ltInf a \<Longrightarrow> nle a a"
  by (cases a) auto

text \<open>On weights below \<open>Infinity\<close> the comparator of the sort is the order of \<open><\<close>.\<close>

lemma cmp_desc: "ltInf a \<Longrightarrow> ltInf b \<Longrightarrow> nlt (Fin 0) (nsub b a) = nlt a b"
  by (cases a; cases b) (auto simp: nsub_def)

lemma nlt_nle: "nlt a b \<Longrightarrow> nle a b"
  by (cases a; cases b) auto

lemma not_nlt_nle: "ltInf a \<Longrightarrow> ltInf b \<Longrightarrow> \<not> nlt a b \<Longrightarrow> nle b a"
  by (cases a; cases b) auto

lemma desc_insert:
  assumes fin: "ltInf (wOf x)" "\<forall>e \<in> set xs. ltInf (wOf e)"
  shows "sorted_wrt (\<lambda>a b. nle (wOf b) (wOf a)) xs \<Longrightarrow>
         sorted_wrt (\<lambda>a b. nle (wOf b) (wOf a))
           (insert_cmp (\<lambda>a b. nsub (snd (snd b)) (snd (snd a))) x xs)"
  using fin
proof (induction xs)
  case Nil
  then show ?case by simp
next
  case (Cons y ys)
  from Cons.prems have wx: "ltInf (wOf x)" and wy: "ltInf (wOf y)" by auto
  from cmp_desc [OF wx wy]
  have c: "nlt (Fin 0) (nsub (snd (snd y)) (snd (snd x))) = nlt (wOf x) (wOf y)"
    by (simp add: wOf_def)
  show ?case
  proof (cases "nlt (wOf x) (wOf y)")
    case True
    from Cons have ih: "sorted_wrt (\<lambda>a b. nle (wOf b) (wOf a))
           (insert_cmp (\<lambda>a b. nsub (snd (snd b)) (snd (snd a))) x ys)" by simp
    from Cons.prems(1) have "\<forall>z \<in> set ys. nle (wOf z) (wOf y)" by simp
    with nlt_nle [OF True]
    have "\<forall>z \<in> set (insert_cmp (\<lambda>a b. nsub (snd (snd b)) (snd (snd a))) x ys). nle (wOf z) (wOf y)"
      by (auto simp: set_insert_cmp)
    with ih True c show ?thesis by simp
  next
    case False
    from not_nlt_nle [OF wx wy False] have yx: "nle (wOf y) (wOf x)" .
    have "\<forall>z \<in> set (y # ys). nle (wOf z) (wOf x)"
    proof
      fix z assume z: "z \<in> set (y # ys)"
      show "nle (wOf z) (wOf x)"
      proof (cases "z = y")
        case True
        with yx show ?thesis by simp
      next
        case Fz: False
        with z Cons.prems(1) have "nle (wOf z) (wOf y)" by auto
        moreover from z Cons.prems have "ltInf (wOf z)" by auto
        ultimately show ?thesis using wy wx yx by (blast intro: nle_trans_w)
      qed
    qed
    with Cons.prems(1) False c show ?thesis by simp
  qed
qed

lemma desc_sort:
  "\<forall>e \<in> set xs. ltInf (wOf e) \<Longrightarrow>
   sorted_wrt (\<lambda>a b. nle (wOf b) (wOf a)) (sort_cmp (\<lambda>a b. nsub (snd (snd b)) (snd (snd a))) xs)"
proof (induction xs)
  case Nil
  then show ?case by simp
next
  case (Cons x xs)
  then have "sorted_wrt (\<lambda>a b. nle (wOf b) (wOf a)) (sort_cmp (\<lambda>a b. nsub (snd (snd b)) (snd (snd a))) xs)"
    by simp
  moreover from Cons.prems have "ltInf (wOf x)"
    "\<forall>e \<in> set (sort_cmp (\<lambda>a b. nsub (snd (snd b)) (snd (snd a))) xs). ltInf (wOf e)"
    by (auto simp: set_sort_cmp)
  ultimately show ?case by (simp add: desc_insert)
qed

section \<open>The tree\<close>

lemma primTrace_primTree: "primTrace d visited es \<Longrightarrow> primTree visited es"
  by (induction d visited es rule: primTrace.induct) auto

lemma primTrace_bounds:
  "primTrace d visited es \<Longrightarrow> set visited \<subseteq> {..<length d} \<Longrightarrow>
   \<forall>(p, v, w) \<in> set es. p < length d \<and> v < length d \<and> w = cell d p v"
  by (induction d visited es rule: primTrace.induct) auto

lemma primTree_treeRev:
  "primTree visited es \<Longrightarrow> set visited = verts pre \<Longrightarrow> treeRev pre \<Longrightarrow> treeRev (rev es @ pre)"
proof (induction visited es arbitrary: pre rule: primTree.induct)
  case (1 visited)
  then show ?case by simp
next
  case (2 visited p v w es)
  from "2.prems" have a: "p \<in> verts pre" "v \<notin> verts pre" "primTree (visited @ [v]) es" by auto
  with "2.prems" have t: "treeRev ((p, v, w) # pre)" by simp
  from "2.prems"(2) have s: "set (visited @ [v]) = verts ((p, v, w) # pre)"
    by (auto simp: verts_def dstOf_def)
  from "2.IH" [OF a(3) s t] show ?case by simp
qed

lemma treeRev_mem: "treeRev es \<Longrightarrow> (p, v, w) \<in> set es \<Longrightarrow> p \<in> verts es \<and> v \<in> verts es"
proof (induction es)
  case Nil
  then show ?case by simp
next
  case (Cons e es)
  obtain p0 v0 w0 where e: "e = (p0, v0, w0)" by (cases e) auto
  from Cons show ?case
    unfolding e by (auto simp: verts_def dstOf_def)
qed

lemma treeRev_distinct: "treeRev es \<Longrightarrow> distinct (map dstOf es)"
proof (induction es)
  case Nil
  then show ?case by simp
next
  case (Cons e es)
  obtain p0 v0 w0 where e: "e = (p0, v0, w0)" by (cases e) auto
  from Cons show ?case
    unfolding e by (auto simp: verts_def dstOf_def)
qed

lemma rep_absent: "x \<notin> dstOf ` set es \<Longrightarrow> rep K es x = x"
proof (induction es)
  case Nil
  then show ?case by simp
next
  case (Cons e es)
  obtain p0 v0 w0 where e: "e = (p0, v0, w0)" by (cases e) auto
  from Cons show ?case
    unfolding e by (auto simp: dstOf_def)
qed

lemma rep_verts: "treeRev es \<Longrightarrow> x \<in> verts es \<Longrightarrow> rep K es x \<in> verts es"
proof (induction es arbitrary: x)
  case Nil
  then show ?case by simp
next
  case (Cons e es)
  obtain p0 v0 w0 where e: "e = (p0, v0, w0)" by (cases e) auto
  from Cons.prems have t: "treeRev es" "p0 \<in> verts es" "v0 \<notin> verts es"
    unfolding e by auto
  have sub: "verts es \<subseteq> verts (e # es)" by (auto simp: verts_def)
  show ?case
  proof (cases "x = v0")
    case True
    show ?thesis
    proof (cases "v0 \<in> K")
      case K: True
      from Cons.IH [OF t(1) t(2)] sub True K show ?thesis
        unfolding e by auto
    next
      case False
      from t(3) have "v0 \<notin> dstOf ` set es" by (auto simp: verts_def)
      then have "rep K es v0 = v0" by (rule rep_absent)
      with True False show ?thesis
        unfolding e by (auto simp: verts_def dstOf_def)
    qed
  next
    case False
    with Cons.prems(2) have "x \<in> verts es"
      unfolding e by (auto simp: verts_def dstOf_def)
    from Cons.IH [OF t(1) this] sub False show ?thesis
      unfolding e by auto
  qed
qed

lemma rep_kept:
  "treeRev es \<Longrightarrow> (p, v, w) \<in> set es \<Longrightarrow> v \<in> K \<Longrightarrow> rep K es p = rep K es v"
proof (induction es)
  case Nil
  then show ?case by simp
next
  case (Cons e es)
  obtain p0 v0 w0 where e: "e = (p0, v0, w0)" by (cases e) auto
  from Cons.prems have t: "treeRev es" "p0 \<in> verts es" "v0 \<notin> verts es"
    unfolding e by auto
  show ?case
  proof (cases "(p, v, w) \<in> set es")
    case True
    from treeRev_mem [OF t(1) True] t(3) have "p \<noteq> v0" "v \<noteq> v0" by auto
    with Cons.IH [OF t(1) True Cons.prems(3)] show ?thesis
      unfolding e by simp
  next
    case False
    with Cons.prems(2) have eq: "p = p0" "v = v0" unfolding e by auto
    from t(2,3) have "p0 \<noteq> v0" by auto
    with eq Cons.prems(3) show ?thesis
      unfolding e by simp
  qed
qed

lemma rep_cut:
  "treeRev es \<Longrightarrow> (p, v, w) \<in> set es \<Longrightarrow> v \<notin> K \<Longrightarrow> rep K es v = v \<and> rep K es p \<noteq> v"
proof (induction es)
  case Nil
  then show ?case by simp
next
  case (Cons e es)
  obtain p0 v0 w0 where e: "e = (p0, v0, w0)" by (cases e) auto
  from Cons.prems have t: "treeRev es" "p0 \<in> verts es" "v0 \<notin> verts es"
    unfolding e by auto
  show ?case
  proof (cases "(p, v, w) \<in> set es")
    case True
    from treeRev_mem [OF t(1) True] t(3) have "p \<noteq> v0" "v \<noteq> v0" by auto
    with Cons.IH [OF t(1) True Cons.prems(3)] show ?thesis
      unfolding e by simp
  next
    case False
    with Cons.prems(2) have eq: "p = p0" "v = v0" unfolding e by auto
    from t(3) have "v0 \<notin> dstOf ` set es" by (auto simp: verts_def)
    then have a: "rep K es v0 = v0" by (rule rep_absent)
    from rep_verts [OF t(1) t(2)] t(3) have b: "rep K es p0 \<noteq> v0" by auto
    from t(2,3) have "p0 \<noteq> v0" by auto
    with eq a b Cons.prems(3) show ?thesis
      unfolding e by simp
  qed
qed

section \<open>The hierarchy\<close>

lemma find_newest:
  "List.find P (rev [0..<n]) = (if \<exists>i<n. P i then Some (GREATEST i. i < n \<and> P i) else None)"
proof (induction n)
  case 0
  then show ?case by simp
next
  case (Suc n)
  show ?case
  proof (cases "P n")
    case True
    have "(GREATEST i. i < Suc n \<and> P i) = n"
      using True by (intro Greatest_equality) auto
    with True show ?thesis by auto
  next
    case False
    then have e: "\<And>i. (i < Suc n \<and> P i) = (i < n \<and> P i)"
      by (auto simp: less_Suc_eq)
    from False Suc show ?thesis
      by (simp add: e)
  qed
qed

lemma findCluster_some:
  assumes "\<exists>i<length h. hasBoth h (s, d, w) i"
  shows "\<exists>p. findClusterContainingPoints [s, d] h = Some p \<and> p < length h \<and> hasBoth h (s, d, w) p
            \<and> (\<forall>k. p < k \<and> k < length h \<longrightarrow> \<not> hasBoth h (s, d, w) k)"
proof -
  let ?P = "\<lambda>i. list_all (\<lambda>p. p \<in> set (children (h ! i))) [s, d]"
  have P: "\<And>i. ?P i = hasBoth h (s, d, w) i"
    by (simp add: hasBoth_def memb_def dstOf_def)
  let ?g = "GREATEST i. i < length h \<and> hasBoth h (s, d, w) i"
  from assms obtain i0 where i0: "i0 < length h \<and> hasBoth h (s, d, w) i0" by blast
  have bnd: "\<And>y. y < length h \<and> hasBoth h (s, d, w) y \<Longrightarrow> y \<le> length h" by simp
  from GreatestI_nat [of "\<lambda>i. i < length h \<and> hasBoth h (s, d, w) i", OF i0 bnd]
  have g: "?g < length h" "hasBoth h (s, d, w) ?g" by simp_all
  have mx: "\<forall>k. ?g < k \<and> k < length h \<longrightarrow> \<not> hasBoth h (s, d, w) k"
  proof (intro allI impI notI)
    fix k assume k: "?g < k \<and> k < length h" and hb: "hasBoth h (s, d, w) k"
    from Greatest_le_nat [of "\<lambda>i. i < length h \<and> hasBoth h (s, d, w) i" k, OF _ bnd] k hb
    have "k \<le> ?g" by simp
    with k show False by simp
  qed
  have "findClusterContainingPoints [s, d] h = Some ?g"
    unfolding findClusterContainingPoints_def find_newest P using assms by simp
  with g mx show ?thesis by blast
qed

lemma memb_ext: "ext p h h' \<Longrightarrow> j < length h \<Longrightarrow> memb h' j = memb h j"
  by (simp add: ext_def memb_def)

lemma hasBoth_ext: "ext p h h' \<Longrightarrow> j < length h \<Longrightarrow> hasBoth h' e j = hasBoth h e j"
  by (simp add: hasBoth_def memb_ext)

lemma kid_ext:
  assumes x: "ext p h h'" and k: "kid mcs h j a" and ne: "j \<noteq> p"
  shows "kid mcs h' j a"
proof -
  from k have b: "j < a" "Suc a < length h" by (auto simp: kid_def)
  then have l: "j < length h" "a < length h" by auto
  from x b l have m: "memb h' j = memb h j" "memb h' a = memb h a" "memb h' (Suc a) = memb h (Suc a)"
    by (simp_all add: memb_ext)
  from x b l ne have f: "children (h' ! a) = children (h ! a)"
    "children (h' ! Suc a) = children (h ! Suc a)"
    "cluster_id (h' ! a) = cluster_id (h ! a)" "cluster_id (h' ! Suc a) = cluster_id (h ! Suc a)"
    "distance (h' ! a) = distance (h ! a)" "distance (h' ! Suc a) = distance (h ! Suc a)"
    "distance (h' ! j) = distance (h ! j)"
    "leftChild (h' ! j) = leftChild (h ! j)" "rightChild (h' ! j) = rightChild (h ! j)"
    by (simp_all add: ext_def)
  from x have "length h \<le> length h'" by (simp add: ext_def)
  with k b show ?thesis
    unfolding kid_def m f by simp
qed

lemma edgesClosed_ext:
  assumes x: "ext p h h'" and k: "kid mcs h j a" and c: "edgesClosed es h j a" and s: "set es' \<subseteq> set es"
  shows "edgesClosed es' h' j a"
proof -
  from k have b: "j < length h" "a < length h" "Suc a < length h" by (auto simp: kid_def)
  with x have "\<And>e. hasBoth h' e j = hasBoth h e j" "\<And>e. hasBoth h' e a = hasBoth h e a"
    "\<And>e. hasBoth h' e (Suc a) = hasBoth h e (Suc a)"
    by (simp_all add: hasBoth_ext)
  with c s show ?thesis
    unfolding edgesClosed_def by auto
qed

lemma anc_ext:
  assumes x: "ext p h h'" and nk: "\<forall>a. \<not> kid mcs h p a"
  shows "anc mcs h j k \<Longrightarrow> anc mcs h' j k"
proof (induction rule: anc.induct)
  case (anc_kid j a k)
  with nk have "j \<noteq> p" by auto
  from kid_ext [OF x anc_kid(1) this] anc_kid(2) show ?case by (rule anc.anc_kid)
next
  case (anc_step j k a k')
  with nk have "k \<noteq> p" by auto
  from anc_step.IH kid_ext [OF x anc_step(2) this] anc_step(3) show ?case by (rule anc.anc_step)
qed

lemma kid_not_leaf: "kid mcs h j a \<Longrightarrow> children (h ! a) \<noteq> [] \<Longrightarrow> \<not> leaf h j"
proof
  assume k: "kid mcs h j a" and ne: "children (h ! a) \<noteq> []" and l: "leaf h j"
  from k have "j < a" "a < length h" "memb h a \<subseteq> memb h j" by (auto simp: kid_def)
  with l have "memb h a \<inter> memb h j = {}" by (auto simp: leaf_def)
  with \<open>memb h a \<subseteq> memb h j\<close> have "memb h a = {}" by auto
  with ne show False by (simp add: memb_def)
qed

lemma addChildren_shape:
  assumes p: "pidx < length h" and ll: "leftChild (h ! pidx) = None" "rightChild (h ! pidx) = None"
  shows "\<exists>P' A' B' st'. addChildren pidx w A B (h, st) = (h[pidx := P'] @ [A', B'], st')
      \<and> children P' = children (h ! pidx) \<and> distance P' = distance (h ! pidx)
      \<and> cluster_id P' = cluster_id (h ! pidx)
      \<and> leftChild P' = (if minClusterSize st \<le> int (length A) then Some (nextClusterId st) else None)
      \<and> rightChild P' = (if minClusterSize st \<le> int (length B) then Some (Suc (nextClusterId st)) else None)
      \<and> children A' = A \<and> distance A' = w \<and> cluster_id A' = nextClusterId st
      \<and> leftChild A' = None \<and> rightChild A' = None
      \<and> children B' = B \<and> distance B' = w \<and> cluster_id B' = Suc (nextClusterId st)
      \<and> leftChild B' = None \<and> rightChild B' = None
      \<and> nextClusterId st' = nextClusterId st + 2 \<and> sortedEdges st' = sortedEdges st
      \<and> minClusterSize st' = minClusterSize st"
proof -
  obtain A0 st1 where c1: "createCluster st A w (sortedEdges st) w = (A0, st1)"
    by (cases "createCluster st A w (sortedEdges st) w") auto
  obtain B0 st2 where c2: "createCluster st1 B w (sortedEdges st1) w = (B0, st2)"
    by (cases "createCluster st1 B w (sortedEdges st1) w") auto
  from c1 have a: "children A0 = A" "distance A0 = w" "cluster_id A0 = nextClusterId st"
    "leftChild A0 = None" "rightChild A0 = None"
    and s1: "nextClusterId st1 = nextClusterId st + 1" "sortedEdges st1 = sortedEdges st"
    "minClusterSize st1 = minClusterSize st"
    by (auto simp: createCluster_def)
  from c2 have b: "children B0 = B" "distance B0 = w" "cluster_id B0 = nextClusterId st1"
    "leftChild B0 = None" "rightChild B0 = None"
    and s2: "nextClusterId st2 = nextClusterId st1 + 1" "sortedEdges st2 = sortedEdges st1"
    "minClusterSize st2 = minClusterSize st1"
    by (auto simp: createCluster_def)
  let ?L = "minClusterSize st \<le> int (length A)" and ?R = "minClusterSize st \<le> int (length B)"
  let ?P = "h ! pidx"
  let ?A' = "if ?L then A0 else A0\<lparr> stability := Some (Fin 0) \<rparr>"
  let ?B' = "if ?R then B0 else B0\<lparr> stability := Some (Fin 0) \<rparr>"
  let ?P1 = "if ?L then ?P\<lparr> leftChild := Some (cluster_id A0) \<rparr> else ?P"
  let ?P2 = "if ?R then ?P1\<lparr> rightChild := Some (cluster_id B0) \<rparr> else ?P1"
  let ?P3 = "if (?L \<and> \<not> ?R) \<or> (\<not> ?L \<and> ?R) then ?P2\<lparr> stability := Some (Fin 0) \<rparr> else ?P2"
  have res: "addChildren pidx w A B (h, st) = (h[pidx := ?P3] @ [?A', ?B'], st2)"
    using p c1 c2 s1
    by (simp add: addChildren_def Let_def nth_append list_update_append1 nth_list_update)
  have "children ?P3 = children ?P" "distance ?P3 = distance ?P" "cluster_id ?P3 = cluster_id ?P"
    "leftChild ?P3 = (if ?L then Some (nextClusterId st) else None)"
    "rightChild ?P3 = (if ?R then Some (Suc (nextClusterId st)) else None)"
    using ll a b s1 by auto
  moreover have "children ?A' = A" "distance ?A' = w" "cluster_id ?A' = nextClusterId st"
    "leftChild ?A' = None" "rightChild ?A' = None"
    using a by auto
  moreover have "children ?B' = B" "distance ?B' = w" "cluster_id ?B' = Suc (nextClusterId st)"
    "leftChild ?B' = None" "rightChild ?B' = None"
    using b s1 by auto
  moreover have "nextClusterId st2 = nextClusterId st + 2" "sortedEdges st2 = sortedEdges st"
    "minClusterSize st2 = minClusterSize st"
    using s1 s2 by auto
  ultimately show ?thesis using res by blast
qed

lemma hInv_weaken:
  assumes "hInv n mcs b (e # es) h"
  shows "hInv n mcs b es h"
proof -
  from assms have i1: "h \<noteq> []" "children (h ! 0) = [0..<n]"
    and i2: "\<forall>j<length h. distinct (children (h ! j)) \<and> memb h j \<subseteq> {..<n} \<and> children (h ! j) \<noteq> []
            \<and> cluster_id (h ! j) = b + j \<and> ltInf (distance (h ! j))
            \<and> (\<forall>e' \<in> set (e # es). nle (wOf e') (distance (h ! j)))"
    and i3: "\<forall>j<length h. leaf h j \<or> (\<exists>a. kid mcs h j a \<and> edgesClosed (e # es) h j a)"
    and i4: "\<forall>j k. j < k \<and> k < length h \<longrightarrow> memb h j \<inter> memb h k = {} \<or> anc mcs h j k"
    unfolding hInv_def by auto
  have c: "\<And>j a. edgesClosed (e # es) h j a \<Longrightarrow> edgesClosed es h j a"
    by (simp add: edgesClosed_def)
  from i2 have j2: "\<forall>j<length h. distinct (children (h ! j)) \<and> memb h j \<subseteq> {..<n} \<and> children (h ! j) \<noteq> []
            \<and> cluster_id (h ! j) = b + j \<and> ltInf (distance (h ! j))
            \<and> (\<forall>e' \<in> set es. nle (wOf e') (distance (h ! j)))"
    by simp
  from i3 c have j3: "\<forall>j<length h. leaf h j \<or> (\<exists>a. kid mcs h j a \<and> edgesClosed es h j a)"
    by blast
  from i1 j2 j3 i4 show ?thesis
    unfolding hInv_def by blast
qed

lemma hInv_split:
  assumes inv: "hInv n mcs b (e # es) h"
    and p: "pidx < length h" and lf: "leaf h pidx"
    and h': "h' = h[pidx := P'] @ [A', B']"
    and P': "children P' = children (h ! pidx)" "distance P' = distance (h ! pidx)"
      "cluster_id P' = cluster_id (h ! pidx)"
      "leftChild P' = (if mcs \<le> int (length A) then Some (b + length h) else None)"
      "rightChild P' = (if mcs \<le> int (length B) then Some (Suc (b + length h)) else None)"
    and A': "children A' = A" "distance A' = wOf e" "cluster_id A' = b + length h"
      "leftChild A' = None" "rightChild A' = None"
    and B': "children B' = B" "distance B' = wOf e" "cluster_id B' = Suc (b + length h)"
      "leftChild B' = None" "rightChild B' = None"
    and part: "set A \<union> set B = memb h pidx" "set A \<inter> set B = {}" "distinct A" "distinct B"
      "A \<noteq> []" "B \<noteq> []"
    and cl: "\<forall>e' \<in> set es. hasBoth h e' pidx \<longrightarrow>
               (fst e' \<in> set A \<and> dstOf e' \<in> set A) \<or> (fst e' \<in> set B \<and> dstOf e' \<in> set B)"
    and w: "ltInf (wOf e)" "\<forall>e' \<in> set es. nle (wOf e') (wOf e)"
  shows "hInv n mcs b es h'"
proof -
  let ?a = "length h"
  from inv have i1: "h \<noteq> []" "children (h ! 0) = [0..<n]"
    and i2: "\<And>j. j < ?a \<Longrightarrow> distinct (children (h ! j)) \<and> memb h j \<subseteq> {..<n} \<and> children (h ! j) \<noteq> []
            \<and> cluster_id (h ! j) = b + j \<and> ltInf (distance (h ! j))
            \<and> (\<forall>e' \<in> set (e # es). nle (wOf e') (distance (h ! j)))"
    and i3: "\<And>j. j < ?a \<Longrightarrow> leaf h j \<or> (\<exists>a. kid mcs h j a \<and> edgesClosed (e # es) h j a)"
    and i4: "\<And>j k. j < k \<Longrightarrow> k < ?a \<Longrightarrow> memb h j \<inter> memb h k = {} \<or> anc mcs h j k"
    unfolding hInv_def by auto
  have len: "length h' = ?a + 2" by (simp add: h')
  have nA: "h' ! ?a = A'" and nB: "h' ! Suc ?a = B'"
    by (simp_all add: h' nth_append)
  have old: "\<And>j. j < ?a \<Longrightarrow> h' ! j = (if j = pidx then P' else h ! j)"
    by (simp add: h' nth_append nth_list_update)
  have x: "ext pidx h h'"
    unfolding ext_def using old P' len by auto
  have mA: "memb h' ?a = set A" and mB: "memb h' (Suc ?a) = set B"
    by (simp_all add: memb_def nA nB A' B')
  have mo: "\<And>j. j < ?a \<Longrightarrow> memb h' j = memb h j"
    using x by (simp add: memb_ext)
  have nk: "\<forall>a. \<not> kid mcs h pidx a"
  proof (intro allI notI)
    fix a assume k: "kid mcs h pidx a"
    then have "a < ?a" by (auto simp: kid_def)
    with i2 have "children (h ! a) \<noteq> []" by blast
    from kid_not_leaf [OF k this] lf show False by simp
  qed
  have subA: "set A \<subseteq> memb h pidx" and subB: "set B \<subseteq> memb h pidx"
    using part by auto
  have kp: "kid mcs h' pidx ?a"
  proof -
    from i2 [OF p] have "nle (wOf e) (distance (h ! pidx))" by simp
    then show ?thesis
      unfolding kid_def using p len part mA mB mo [OF p] old [OF p] nA nB P' A' B'
      by simp
  qed
  have dj: "\<And>j. j < ?a \<Longrightarrow> j \<noteq> pidx \<Longrightarrow> leaf h j \<Longrightarrow> memb h pidx \<inter> memb h j = {}"
  proof -
    fix j assume j: "j < ?a" "j \<noteq> pidx" "leaf h j"
    show "memb h pidx \<inter> memb h j = {}"
    proof (cases "j < pidx")
      case True
      with j(3) p show ?thesis by (auto simp: leaf_def)
    next
      case False
      with j have "pidx < j" by simp
      with lf j(1) show ?thesis by (auto simp: leaf_def)
    qed
  qed
  have c1: "h' \<noteq> []" "children (h' ! 0) = [0..<n]"
  proof -
    show "h' \<noteq> []" by (simp add: h')
    from i1 have "0 < ?a" by simp
    with x i1 show "children (h' ! 0) = [0..<n]" by (simp add: ext_def)
  qed
  have c2: "\<forall>j<length h'. distinct (children (h' ! j)) \<and> memb h' j \<subseteq> {..<n} \<and> children (h' ! j) \<noteq> []
            \<and> cluster_id (h' ! j) = b + j \<and> ltInf (distance (h' ! j))
            \<and> (\<forall>e' \<in> set es. nle (wOf e') (distance (h' ! j)))"
  proof (intro allI impI)
    fix j assume "j < length h'"
    with len have "j < ?a \<or> j = ?a \<or> j = Suc ?a" by auto
    then show "distinct (children (h' ! j)) \<and> memb h' j \<subseteq> {..<n} \<and> children (h' ! j) \<noteq> []
            \<and> cluster_id (h' ! j) = b + j \<and> ltInf (distance (h' ! j))
            \<and> (\<forall>e' \<in> set es. nle (wOf e') (distance (h' ! j)))"
    proof (elim disjE)
      assume j: "j < ?a"
      with x have "children (h' ! j) = children (h ! j)" "distance (h' ! j) = distance (h ! j)"
        "cluster_id (h' ! j) = cluster_id (h ! j)"
        by (simp_all add: ext_def)
      with i2 [OF j] mo [OF j] show ?thesis by simp
    next
      assume j: "j = ?a"
      from i2 [OF p] subA have "set A \<subseteq> {..<n}" by auto
      with part w show ?thesis
        unfolding j nA mA by (simp add: A')
    next
      assume j: "j = Suc ?a"
      from i2 [OF p] subB have "set B \<subseteq> {..<n}" by auto
      with part w show ?thesis
        unfolding j nB mB by (simp add: B')
    qed
  qed
  have c3: "\<forall>j<length h'. leaf h' j \<or> (\<exists>a. kid mcs h' j a \<and> edgesClosed es h' j a)"
  proof (intro allI impI)
    fix j assume "j < length h'"
    with len have "j = pidx \<or> (j < ?a \<and> j \<noteq> pidx) \<or> j = ?a \<or> j = Suc ?a" by auto
    then show "leaf h' j \<or> (\<exists>a. kid mcs h' j a \<and> edgesClosed es h' j a)"
    proof (elim disjE)
      assume j: "j = pidx"
      have "edgesClosed es h' pidx ?a"
        unfolding edgesClosed_def
      proof (intro ballI impI)
        fix e' assume e': "e' \<in> set es" and hb: "hasBoth h' e' pidx"
        from hb have "hasBoth h e' pidx" by (simp add: hasBoth_def mo [OF p])
        with cl e' show "hasBoth h' e' ?a \<or> hasBoth h' e' (Suc ?a)"
          by (simp add: hasBoth_def mA mB)
      qed
      with kp j show ?thesis by blast
    next
      assume j: "j < ?a \<and> j \<noteq> pidx"
      from i3 j have "leaf h j \<or> (\<exists>a. kid mcs h j a \<and> edgesClosed (e # es) h j a)" by blast
      then show ?thesis
      proof
        assume l: "leaf h j"
        from dj j l have d: "memb h pidx \<inter> memb h j = {}" by blast
        have "leaf h' j"
          unfolding leaf_def
        proof (intro conjI allI impI)
          from x j l show "leftChild (h' ! j) = None" by (simp add: ext_def leaf_def)
          from x j l show "rightChild (h' ! j) = None" by (simp add: ext_def leaf_def)
        next
          fix k assume k: "j < k \<and> k < length h'"
          with len have "k < ?a \<or> k = ?a \<or> k = Suc ?a" by auto
          then show "memb h' k \<inter> memb h' j = {}"
          proof (elim disjE)
            assume "k < ?a"
            with l k j show ?thesis by (simp add: mo leaf_def)
          next
            assume "k = ?a"
            with d subA j show ?thesis by (auto simp: mA mo)
          next
            assume "k = Suc ?a"
            with d subB j show ?thesis by (auto simp: mB mo)
          qed
        qed
        then show ?thesis ..
      next
        assume "\<exists>a. kid mcs h j a \<and> edgesClosed (e # es) h j a"
        then obtain a where a: "kid mcs h j a" "edgesClosed (e # es) h j a" by blast
        from j have ne: "j \<noteq> pidx" by simp
        have "kid mcs h' j a" by (rule kid_ext [OF x a(1) ne])
        moreover have "edgesClosed es h' j a"
          by (rule edgesClosed_ext [OF x a(1) a(2)]) auto
        ultimately show ?thesis by blast
      qed
    next
      assume j: "j = ?a"
      have "leaf h' ?a"
        unfolding leaf_def
      proof (intro conjI allI impI)
        show "leftChild (h' ! ?a) = None" by (simp add: nA A')
        show "rightChild (h' ! ?a) = None" by (simp add: nA A')
      next
        fix k assume "?a < k \<and> k < length h'"
        with len have "k = Suc ?a" by auto
        with part show "memb h' k \<inter> memb h' ?a = {}" by (auto simp: mA mB)
      qed
      with j show ?thesis by blast
    next
      assume j: "j = Suc ?a"
      have "leaf h' (Suc ?a)"
        unfolding leaf_def using len by (auto simp: nB B')
      with j show ?thesis by blast
    qed
  qed
  have lamNew: "\<And>j k. j < ?a \<Longrightarrow> k = ?a \<or> k = Suc ?a \<Longrightarrow> memb h' j \<inter> memb h' k = {} \<or> anc mcs h' j k"
  proof -
    fix j k assume j: "j < ?a" and k: "k = ?a \<or> k = Suc ?a"
    from k subA subB have sub: "memb h' k \<subseteq> memb h pidx" by (auto simp: mA mB)
    show "memb h' j \<inter> memb h' k = {} \<or> anc mcs h' j k"
    proof (cases "j = pidx")
      case True
      from kp k have "anc mcs h' pidx k" by (rule anc_kid)
      with True show ?thesis by simp
    next
      case False
      show ?thesis
      proof (cases "j < pidx")
        case True
        from i4 [OF True p] show ?thesis
        proof
          assume "memb h j \<inter> memb h pidx = {}"
          with sub j show ?thesis by (auto simp: mo)
        next
          assume "anc mcs h j pidx"
          then have "anc mcs h' j pidx" by (rule anc_ext [OF x nk])
          from this kp k have "anc mcs h' j k" by (rule anc_step)
          then show ?thesis ..
        qed
      next
        case F2: False
        with False have "pidx < j" by simp
        with lf j have "memb h j \<inter> memb h pidx = {}" by (auto simp: leaf_def)
        with sub j show ?thesis by (auto simp: mo)
      qed
    qed
  qed
  have c4: "\<forall>j k. j < k \<and> k < length h' \<longrightarrow> memb h' j \<inter> memb h' k = {} \<or> anc mcs h' j k"
  proof (intro allI impI)
    fix j k assume jk: "j < k \<and> k < length h'"
    with len have "k < ?a \<or> (j < ?a \<and> (k = ?a \<or> k = Suc ?a)) \<or> (j = ?a \<and> k = Suc ?a)" by auto
    then show "memb h' j \<inter> memb h' k = {} \<or> anc mcs h' j k"
    proof (elim disjE)
      assume k: "k < ?a"
      with jk have j: "j < ?a" by simp
      from i4 [of j k] jk k have "memb h j \<inter> memb h k = {} \<or> anc mcs h j k" by simp
      then show ?thesis
        using anc_ext [OF x nk] by (auto simp: mo [OF j] mo [OF k])
    next
      assume "j < ?a \<and> (k = ?a \<or> k = Suc ?a)"
      then show ?thesis using lamNew by blast
    next
      assume "j = ?a \<and> k = Suc ?a"
      with part show ?thesis by (auto simp: mA mB)
    qed
  qed
  from c1 c2 c3 c4 show ?thesis
    unfolding hInv_def by blast
qed

lemma processEdge_inv:
  assumes inv: "hInv n mcs b (e # es) h"
    and st: "length (sortedEdges st) + 1 = n" "minClusterSize st = mcs" "nextClusterId st = b + length h"
    and ei: "sortedE ! i = e" "drop (Suc i) sortedE = es"
    and bnd: "fst e < n" "dstOf e < n"
    and w: "ltInf (wOf e)" "\<forall>e' \<in> set es. nle (wOf e') (wOf e)"
    and sep: "\<exists>f::nat \<Rightarrow> nat. (\<forall>e' \<in> set es. f (fst e') = f (dstOf e')) \<and> f (fst e) \<noteq> f (dstOf e)"
  shows "\<exists>h' st'. processEdge sortedE i (h, st) = Inr (h', st') \<and> hInv n mcs b es h'
        \<and> sortedEdges st' = sortedEdges st \<and> minClusterSize st' = mcs
        \<and> nextClusterId st' = b + length h'"
proof -
  obtain src dst wt where e: "e = (src, dst, wt)" by (cases e) auto
  then have ef: "fst e = src" "dstOf e = dst" "wOf e = wt" by (simp_all add: dstOf_def wOf_def)
  from inv have i1: "h \<noteq> []" "children (h ! 0) = [0..<n]"
    and i2: "\<And>j. j < length h \<Longrightarrow> distinct (children (h ! j)) \<and> memb h j \<subseteq> {..<n}
               \<and> children (h ! j) \<noteq> []"
    and i3: "\<And>j. j < length h \<Longrightarrow> leaf h j \<or> (\<exists>a. kid mcs h j a \<and> edgesClosed (e # es) h j a)"
    unfolding hInv_def by auto
  from i1 bnd ef have "hasBoth h (src, dst, wt) 0"
    by (simp add: hasBoth_def memb_def dstOf_def)
  with i1 have "\<exists>i<length h. hasBoth h (src, dst, wt) i" by auto
  from findCluster_some [OF this] obtain pidx where pf: "findClusterContainingPoints [src, dst] h = Some pidx"
    and p: "pidx < length h" and hb: "hasBoth h (src, dst, wt) pidx"
    and mx: "\<forall>k. pidx < k \<and> k < length h \<longrightarrow> \<not> hasBoth h (src, dst, wt) k"
    by blast
  have lf: "leaf h pidx"
  proof (rule ccontr)
    assume "\<not> leaf h pidx"
    with i3 [OF p] obtain a where a: "kid mcs h pidx a" "edgesClosed (e # es) h pidx a" by blast
    from a(2) hb e have "hasBoth h (src, dst, wt) a \<or> hasBoth h (src, dst, wt) (Suc a)"
      by (simp add: edgesClosed_def)
    moreover from a(1) have "pidx < a" "Suc a < length h" by (auto simp: kid_def)
    ultimately show False using mx by force
  qed
  let ?pts = "children (h ! pidx)"
  from i2 [OF p] st(1) have sub: "set ?pts \<subseteq> {..<length (sortedEdges st) + 1}" and dist: "distinct ?pts"
    by (auto simp: memb_def)
  from splitClusterAtEdge_correct [OF sub dist, of src dst wt es]
  obtain comps where sp: "splitClusterAtEdge st ?pts (src, dst, wt) es = Inr comps"
    and cov: "set (concat comps) = set ?pts" and dis: "distinct (concat comps)"
    and ne: "\<forall>c \<in> set comps. c \<noteq> []"
    and compl: "\<forall>(s, d, w') \<in> set es. nle w' wt \<and> s \<in> set ?pts \<and> d \<in> set ?pts \<longrightarrow>
              (\<exists>c \<in> set comps. s \<in> set c \<and> d \<in> set c)"
    and snd: "\<forall>f::nat \<Rightarrow> nat. (\<forall>(s, d, w') \<in> set es. s \<in> set ?pts \<and> d \<in> set ?pts \<longrightarrow> f s = f d) \<longrightarrow>
              (\<forall>c \<in> set comps. \<forall>x \<in> set c. \<forall>y \<in> set c. f x = f y)"
    by blast
  from hb have sd: "src \<in> set ?pts" "dst \<in> set ?pts"
    by (simp_all add: hasBoth_def memb_def dstOf_def)
  have n1: "length comps \<noteq> 1"
  proof
    assume "length comps = 1"
    then obtain c where c: "comps = [c]" by (cases comps) auto
    with cov sd have in_c: "src \<in> set c" "dst \<in> set c" by auto
    from sep ef obtain f :: "nat \<Rightarrow> nat" where f: "\<forall>e' \<in> set es. f (fst e') = f (dstOf e')" "f src \<noteq> f dst"
      by auto
    from f(1) have "\<forall>(s, d, w') \<in> set es. s \<in> set ?pts \<and> d \<in> set ?pts \<longrightarrow> f s = f d"
      by (auto simp: dstOf_def)
    with snd c in_c have "f src = f dst" by auto
    with f(2) show False by simp
  qed
  have ll: "leftChild (h ! pidx) = None" "rightChild (h ! pidx) = None"
    using lf by (simp_all add: leaf_def)
  show ?thesis
  proof (cases "length comps = 2")
    case False
    with n1 have "length comps > 2 \<or> length comps = 0" by arith
    then have cond: "length comps > 2 \<or> (length comps < 2 \<and> list_all (\<lambda>c. length c = 1) comps)
                     \<or> length comps = 0 \<or> length comps = 2"
      by blast
    have "processEdge sortedE i (h, st) = Inr (h, st)"
      using pf ll sp ei e cond False
      by (simp add: processEdge_def)
    with hInv_weaken [OF inv] st show ?thesis by simp
  next
    case True
    then obtain A B where ab: "comps = [A, B]"
      by (cases comps; cases "tl comps") auto
    from addChildren_shape [OF p ll, of wt A B st]
    obtain P' A' B' st' where ac: "addChildren pidx wt A B (h, st) = (h[pidx := P'] @ [A', B'], st')"
      and P': "children P' = children (h ! pidx)" "distance P' = distance (h ! pidx)"
        "cluster_id P' = cluster_id (h ! pidx)"
        "leftChild P' = (if minClusterSize st \<le> int (length A) then Some (nextClusterId st) else None)"
        "rightChild P' = (if minClusterSize st \<le> int (length B) then Some (Suc (nextClusterId st)) else None)"
      and A': "children A' = A" "distance A' = wt" "cluster_id A' = nextClusterId st"
        "leftChild A' = None" "rightChild A' = None"
      and B': "children B' = B" "distance B' = wt" "cluster_id B' = Suc (nextClusterId st)"
        "leftChild B' = None" "rightChild B' = None"
      and st': "nextClusterId st' = nextClusterId st + 2" "sortedEdges st' = sortedEdges st"
        "minClusterSize st' = minClusterSize st"
      by blast
    have res: "processEdge sortedE i (h, st) = Inr (h[pidx := P'] @ [A', B'], st')"
      using pf ll sp ei e ab ac
      by (simp add: processEdge_def)
    have part: "set A \<union> set B = memb h pidx" "set A \<inter> set B = {}" "distinct A" "distinct B"
      "A \<noteq> []" "B \<noteq> []"
      using cov dis ne ab by (auto simp: memb_def)
    have cl: "\<forall>e' \<in> set es. hasBoth h e' pidx \<longrightarrow>
               (fst e' \<in> set A \<and> dstOf e' \<in> set A) \<or> (fst e' \<in> set B \<and> dstOf e' \<in> set B)"
    proof (intro ballI impI)
      fix e' assume e': "e' \<in> set es" and hb': "hasBoth h e' pidx"
      obtain s d w' where t: "e' = (s, d, w')" by (cases e') auto
      from w(2) e' ef t have "nle w' wt" by (auto simp: wOf_def)
      moreover from hb' t have "s \<in> set ?pts" "d \<in> set ?pts"
        by (simp_all add: hasBoth_def memb_def dstOf_def)
      ultimately have "\<exists>c \<in> set comps. s \<in> set c \<and> d \<in> set c"
        using compl e' t by auto
      with ab t show "(fst e' \<in> set A \<and> dstOf e' \<in> set A) \<or> (fst e' \<in> set B \<and> dstOf e' \<in> set B)"
        by (auto simp: dstOf_def)
    qed
    have "hInv n mcs b es (h[pidx := P'] @ [A', B'])"
      by (rule hInv_split [OF inv p lf refl, where A = A and B = B])
         (simp_all add: P' A' B' st ef part cl w [unfolded ef])
    with res st st' show ?thesis by simp
  qed
qed

lemma sep_exists:
  assumes t: "treeRev T" and s: "set sortedE = set T" and d: "distinct (map dstOf sortedE)"
    and k: "k < length sortedE"
  shows "\<exists>f::nat \<Rightarrow> nat. (\<forall>e' \<in> set (drop (Suc k) sortedE). f (fst e') = f (dstOf e'))
           \<and> f (fst (sortedE ! k)) \<noteq> f (dstOf (sortedE ! k))"
proof -
  let ?K = "dstOf ` set (drop (Suc k) sortedE)"
  let ?f = "rep ?K T"
  have a: "\<forall>e' \<in> set (drop (Suc k) sortedE). ?f (fst e') = ?f (dstOf e')"
  proof
    fix e' assume e': "e' \<in> set (drop (Suc k) sortedE)"
    obtain p v w where pv: "e' = (p, v, w)" by (cases e') auto
    from e' have "e' \<in> set sortedE" by (rule in_set_dropD)
    with s pv have m: "(p, v, w) \<in> set T" by simp
    from e' pv have "v \<in> ?K" by (force simp: dstOf_def)
    from rep_kept [OF t m this] pv show "?f (fst e') = ?f (dstOf e')"
      by (simp add: dstOf_def)
  qed
  obtain p v w where pv: "sortedE ! k = (p, v, w)" by (cases "sortedE ! k") auto
  from k s pv have m: "(p, v, w) \<in> set T" by (metis nth_mem)
  have "sortedE = take k sortedE @ sortedE ! k # drop (Suc k) sortedE"
    using k by (rule id_take_nth_drop)
  with d have "distinct (map dstOf (take k sortedE @ sortedE ! k # drop (Suc k) sortedE))" by simp
  then have "dstOf (sortedE ! k) \<notin> ?K" by auto
  with pv have "v \<notin> ?K" by (simp add: dstOf_def)
  from rep_cut [OF t m this] pv have "?f (fst (sortedE ! k)) \<noteq> ?f (dstOf (sortedE ! k))"
    by (simp add: dstOf_def)
  with a show ?thesis by blast
qed

lemma buildLoop:
  assumes t: "treeRev T" and s: "set sortedE = set T" and d: "distinct (map dstOf sortedE)"
    and bnd: "\<forall>e \<in> set sortedE. fst e < n \<and> dstOf e < n \<and> ltInf (wOf e)"
    and srt: "sorted_wrt (\<lambda>a b. nle (wOf b) (wOf a)) sortedE"
  shows "i \<le> length sortedE \<Longrightarrow> hInv n mcs b (drop i sortedE) h \<Longrightarrow>
     length (sortedEdges st) + 1 = n \<Longrightarrow> minClusterSize st = mcs \<Longrightarrow>
     nextClusterId st = b + length h \<Longrightarrow>
     \<exists>h' st'. foldE (processEdge sortedE) [i..<length sortedE] (h, st) = Inr (h', st')
        \<and> hInv n mcs b [] h' \<and> minClusterSize st' = mcs \<and> nextClusterId st' = b + length h'
        \<and> sortedEdges st' = sortedEdges st"
proof (induction "length sortedE - i" arbitrary: i h st)
  case 0
  then have "i = length sortedE" by simp
  with 0 show ?case by simp
next
  case (Suc m)
  then have lt: "i < length sortedE" by simp
  let ?e = "sortedE ! i" and ?es = "drop (Suc i) sortedE"
  have dr: "drop i sortedE = ?e # ?es" using lt by (rule Cons_nth_drop_Suc [symmetric])
  from lt bnd have b1: "fst ?e < n" "dstOf ?e < n" "ltInf (wOf ?e)" by auto
  have w2: "\<forall>e' \<in> set ?es. nle (wOf e') (wOf ?e)"
  proof -
    from srt have "sorted_wrt (\<lambda>a b. nle (wOf b) (wOf a)) (drop i sortedE)"
      by (rule sorted_wrt_drop)
    then show ?thesis unfolding dr by simp
  qed
  from Suc.prems(2) have inv: "hInv n mcs b (?e # ?es) h" unfolding dr .
  from processEdge_inv [OF inv Suc.prems(3,4,5) refl refl b1(1,2,3) w2 sep_exists [OF t s d lt]]
  obtain h1 st1 where r1: "processEdge sortedE i (h, st) = Inr (h1, st1)"
    and i1: "hInv n mcs b ?es h1" and s1: "sortedEdges st1 = sortedEdges st"
      "minClusterSize st1 = mcs" "nextClusterId st1 = b + length h1"
    by blast
  have m: "m = length sortedE - Suc i" using Suc.hyps(2) by simp
  from lt have le: "Suc i \<le> length sortedE" by simp
  from s1(1) Suc.prems(3) have l1: "length (sortedEdges st1) + 1 = n" by simp
  from Suc.hyps(1) [OF m le i1 l1 s1(2,3)] obtain h' st' where
    r2: "foldE (processEdge sortedE) [Suc i..<length sortedE] (h1, st1) = Inr (h', st')"
    and f: "hInv n mcs b [] h'" "minClusterSize st' = mcs" "nextClusterId st' = b + length h'"
      "sortedEdges st' = sortedEdges st1"
    by blast
  have "foldE (processEdge sortedE) [i..<length sortedE] (h, st) = Inr (h', st')"
    using lt r1 r2 by (simp add: upt_conv_Cons)
  with f s1 show ?case by simp
qed

lemma sorted_desc_hd:
  assumes "sorted_wrt (\<lambda>a b. nle (wOf b) (wOf a)) (e0 # es)" and "ltInf (wOf e0)"
  shows "\<forall>e \<in> set (e0 # es). nle (wOf e) (wOf e0)"
  using assms by (auto simp: nle_refl_w)

lemma buildClusterHierarchy_inv:
  assumes pt: "primTree [0] mst"
    and bnd: "\<forall>e \<in> set mst. fst e < n \<and> dstOf e < n \<and> ltInf (wOf e)"
    and ne: "mst \<noteq> []" and n: "n = length mst + 1"
    and se: "length (sortedEdges st) = length mst"
  shows "\<exists>h st'. buildClusterHierarchy st mst = Inr (h, st')
           \<and> hInv n (minClusterSize st) (nextClusterId st) [] h
           \<and> minClusterSize st' = minClusterSize st \<and> sortedEdges st' = sortedEdges st"
proof -
  let ?cmp = "\<lambda>a b. nsub (snd (snd b)) (snd (snd a))"
  let ?S = "sort_cmp ?cmp mst"
  have "treeRev (rev mst @ [])"
    by (rule primTree_treeRev [OF pt]) (simp_all add: verts_def)
  then have t: "treeRev (rev mst)" by simp
  have s: "set ?S = set (rev mst)" by (simp add: set_sort_cmp)
  from treeRev_distinct [OF t] have "distinct (map dstOf mst)"
    by (simp add: rev_map [symmetric])
  then have d: "distinct (map dstOf ?S)" by (simp add: distinct_map_sort_cmp)
  from bnd have b: "\<forall>e \<in> set ?S. fst e < n \<and> dstOf e < n \<and> ltInf (wOf e)"
    by (simp add: set_sort_cmp)
  from bnd have srt: "sorted_wrt (\<lambda>a b. nle (wOf b) (wOf a)) ?S"
    by (intro desc_sort) simp
  from ne have "length ?S \<noteq> 0" by (simp add: length_sort_cmp)
  then obtain e0 rest where S: "?S = e0 # rest" by (cases ?S) auto
  let ?w0 = "snd (snd e0)"
  obtain R st1 where c: "createCluster st [0..<n] ?w0 ?S ?w0 = (R, st1)"
    by (cases "createCluster st [0..<n] ?w0 ?S ?w0") auto
  then have R: "children R = [0..<n]" "distance R = ?w0" "cluster_id R = nextClusterId st"
    "leftChild R = None" "rightChild R = None"
    and s1: "nextClusterId st1 = nextClusterId st + 1" "sortedEdges st1 = sortedEdges st"
    "minClusterSize st1 = minClusterSize st"
    by (auto simp: createCluster_def)
  let ?h0 = "[R\<lparr> stability := Some (Fin 0) \<rparr>]"
  have res: "buildClusterHierarchy st mst = foldE (processEdge ?S) [0..<length ?S] (?h0, st1)"
    using c n S by (simp add: buildClusterHierarchy_def Let_def)
  from b S have f0: "ltInf (wOf e0)" by simp
  from srt S have "sorted_wrt (\<lambda>a b. nle (wOf b) (wOf a)) (e0 # rest)" by simp
  from sorted_desc_hd [OF this f0] S have mx: "\<forall>e \<in> set ?S. nle (wOf e) (wOf e0)" by simp
  have w0: "?w0 = wOf e0" by (simp add: wOf_def)
  have lf: "leaf ?h0 0" by (simp add: leaf_def R)
  have inv0: "hInv n (minClusterSize st) (nextClusterId st) (drop 0 ?S) ?h0"
    unfolding hInv_def using R n f0 mx lf
    by (auto simp: memb_def w0)
  from buildLoop [OF t s d b srt _ inv0, of st1] se n s1
  obtain h st' where "foldE (processEdge ?S) [0..<length ?S] (?h0, st1) = Inr (h, st')"
    "hInv n (minClusterSize st) (nextClusterId st) [] h" "minClusterSize st' = minClusterSize st"
    "sortedEdges st' = sortedEdges st1"
    by auto
  with res s1 show ?thesis by simp
qed

section \<open>The first step of fit\<close>

lemma collect_map:
  "\<forall>x \<in> set xs. f x = Inr (g x) \<Longrightarrow> collect (map f xs) = Inr (map g xs)"
  by (induction xs) auto

text \<open>
  The first step returns a matrix with one row for each point when there are at least
  two points and \<open>minSamples\<close> is at least \<open>1\<close>, whatever the coordinates are.
\<close>

lemma length_pointDistances:
  assumes i: "i < length data"
  shows "length (pointDistances data i) = length data - 1"
proof -
  have "[0..<length data] = [0..<i] @ i # [Suc i..<length data]"
    using i by (metis le_add1 less_imp_add_positive upt_add_eq_append upt_conv_Cons plus_nat.add_0 le0)
  then have "filter (\<lambda>j. i \<noteq> j) [0..<length data]
                = filter (\<lambda>j. i \<noteq> j) ([0..<i] @ i # [Suc i..<length data])" by simp
  also have "\<dots> = [0..<i] @ [Suc i..<length data]"
    by (auto simp: filter_id_conv)
  finally have "filter (\<lambda>j. i \<noteq> j) [0..<length data] = [0..<i] @ [Suc i..<length data]" .
  with i show ?thesis by (simp add: pointDistances_def)
qed

lemma coreDistance_returns:
  assumes n: "2 \<le> length data" and ms: "1 \<le> ms" and i: "i < length data"
  shows "\<exists>v. coreDistance ms data i = Inr v"
proof -
  let ?pd = "sort_cmp (\<lambda>a b. nsub (snd a) (snd b)) (pointDistances data i)"
  have len: "length ?pd = length data - 1"
    by (simp add: length_sort_cmp length_pointDistances [OF i])
  let ?k = "min (ms - 1) (int (length ?pd) - 1)"
  from len n ms have "0 \<le> ?k" "?k < int (length ?pd)" by auto
  then show ?thesis
    by (simp add: coreDistance_def Let_def)
qed

lemma computeMutualReachabilityDistance_returns:
  assumes n: "2 \<le> length data" and ms: "1 \<le> minSamples st"
  shows "\<exists>M. computeMutualReachabilityDistance st data = Inr M \<and> length M = length data"
proof -
  define g where "g i = (case coreDistance (minSamples st) data i of Inr v \<Rightarrow> v | Inl e \<Rightarrow> NaN)" for i
  have "\<forall>i \<in> set [0..<length data]. coreDistance (minSamples st) data i = Inr (g i)"
  proof
    fix i assume "i \<in> set [0..<length data]"
    then have "i < length data" by simp
    from coreDistance_returns [OF n ms this] show "coreDistance (minSamples st) data i = Inr (g i)"
      by (auto simp: g_def)
  qed
  from collect_map [OF this] show ?thesis
    by (simp add: computeMutualReachabilityDistance_def Let_def)
qed

section \<open>The walk returns\<close>

lemma processCluster_Suc:
  "processCluster (Suc fuel) st c x =
     (if cluster_id c \<in> set (discardedClusters x) then Some x
      else if walkSelects st x c
      then Some (x\<lparr> clusters := walkClusters st x c,
                    selectedClusters := addSelected c (selectedClusters x),
                    discardedClusters := discardedClusters x
                       @ map cluster_id (childClustersOf (clusters x) c) \<rparr>)
      else fold (\<lambda>c r. case r of None \<Rightarrow> None | Some y \<Rightarrow> processCluster fuel st c y)
             (walkNext st x c)
             (Some (x\<lparr> clusters := walkClusters st x c,
                       discardedClusters := discardedClusters x @ [cluster_id c] \<rparr>)))"
  by (simp only: processCluster.simps Let_def walkStab_def walkChildStab_def walkClusters_def
        walkSelects_def walkNext_def)

lemma ids_setStability: "cluster_id ` set (setStability i s cs) = cluster_id ` set cs"
  by (induction cs) (auto simp: setStability_def)

lemma ids_fold_setStability:
  "cluster_id ` set (fold (\<lambda>(i, s) cs. setStability i s cs) xs cs) = cluster_id ` set cs"
proof (induction xs arbitrary: cs)
  case Nil
  then show ?case by simp
next
  case (Cons x xs)
  obtain i s where "x = (i, s)" by (cases x) auto
  with Cons show ?case by (simp add: ids_setStability)
qed

lemma ids_walkClusters: "cluster_id ` set (walkClusters st x c) = cluster_id ` set (clusters x)"
  by (simp add: walkClusters_def ids_setStability ids_fold_setStability)

lemma ids_walkNext: "c' \<in> set (walkNext st x c) \<Longrightarrow> cluster_id c' \<in> cluster_id ` set (clusters x)"
  by (auto simp: walkNext_def childClustersOf_def)

lemma processCluster_returns:
  "cluster_id c \<in> cluster_id ` set (clusters x) \<Longrightarrow>
   card (cluster_id ` set (clusters x) - set (discardedClusters x)) < fuel \<Longrightarrow>
   \<exists>x'. processCluster fuel st c x = Some x'
        \<and> set (discardedClusters x) \<subseteq> set (discardedClusters x')
        \<and> cluster_id ` set (clusters x') = cluster_id ` set (clusters x)"
proof (induction fuel arbitrary: c x)
  case 0
  then show ?case by simp
next
  case (Suc fuel)
  let ?ids = "cluster_id ` set (clusters x)"
  note ps = processCluster_Suc [of fuel st c x]
  show ?case
  proof (cases "cluster_id c \<in> set (discardedClusters x)")
    case True
    with ps have "processCluster (Suc fuel) st c x = Some x" by (simp only: if_True)
    then show ?thesis by blast
  next
    case False
    show ?thesis
    proof (cases "walkSelects st x c")
      case True
      let ?x' = "x\<lparr> clusters := walkClusters st x c,
                    selectedClusters := addSelected c (selectedClusters x),
                    discardedClusters := discardedClusters x
                       @ map cluster_id (childClustersOf (clusters x) c) \<rparr>"
      from ps False True have "processCluster (Suc fuel) st c x = Some ?x'"
        by (simp only: if_True if_False)
      moreover have "set (discardedClusters x) \<subseteq> set (discardedClusters ?x')" by simp
      moreover have "cluster_id ` set (clusters ?x') = ?ids" by (simp add: ids_walkClusters)
      ultimately show ?thesis by blast
    next
      case nsel: False
      let ?d' = "discardedClusters x @ [cluster_id c]"
      let ?x1 = "x\<lparr> clusters := walkClusters st x c, discardedClusters := ?d' \<rparr>"
      let ?step = "\<lambda>c r. case r of None \<Rightarrow> None | Some y \<Rightarrow> processCluster fuel st c y"
      from ps False nsel have res: "processCluster (Suc fuel) st c x
          = fold ?step (walkNext st x c) (Some ?x1)"
        by (simp only: if_False)
      have fin: "finite (?ids - set (discardedClusters x))" by simp
      have e1: "?ids - set ?d' = (?ids - set (discardedClusters x)) - {cluster_id c}" by auto
      have "cluster_id c \<in> ?ids - set (discardedClusters x)"
        using Suc.prems(1) False by simp
      from card_Diff1_less [OF fin this]
      have "card (?ids - set ?d') < card (?ids - set (discardedClusters x))"
        unfolding e1 .
      with Suc.prems(2) have c1: "card (?ids - set ?d') < fuel" by simp
      have loop: "\<forall>c' \<in> set L. cluster_id c' \<in> ?ids \<Longrightarrow>
          cluster_id ` set (clusters y) = ?ids \<Longrightarrow> card (?ids - set (discardedClusters y)) < fuel \<Longrightarrow>
          \<exists>y'. fold ?step L (Some y) = Some y'
               \<and> set (discardedClusters y) \<subseteq> set (discardedClusters y')
               \<and> cluster_id ` set (clusters y') = ?ids" for L y
      proof (induction L arbitrary: y)
        case Nil
        then show ?case by simp
      next
        case (Cons c' L)
        from Cons.prems have a: "cluster_id c' \<in> cluster_id ` set (clusters y)"
          and b: "card (cluster_id ` set (clusters y) - set (discardedClusters y)) < fuel"
          by simp_all
        from Suc.IH [OF a b] obtain y1 where y1: "processCluster fuel st c' y = Some y1"
          "set (discardedClusters y) \<subseteq> set (discardedClusters y1)"
          "cluster_id ` set (clusters y1) = cluster_id ` set (clusters y)"
          by blast
        from y1(2) have "?ids - set (discardedClusters y1) \<subseteq> ?ids - set (discardedClusters y)"
          by auto
        then have "card (?ids - set (discardedClusters y1)) \<le> card (?ids - set (discardedClusters y))"
          by (intro card_mono) auto
        with Cons.prems(3) have c2: "card (?ids - set (discardedClusters y1)) < fuel" by simp
        from y1(3) Cons.prems(2) have i2: "cluster_id ` set (clusters y1) = ?ids" by simp
        from Cons.prems(1) have l2: "\<forall>c' \<in> set L. cluster_id c' \<in> ?ids" by simp
        from Cons.IH [OF l2 i2 c2] obtain y' where y': 
          "fold ?step L (Some y1) = Some y'"
          "set (discardedClusters y1) \<subseteq> set (discardedClusters y')"
          "cluster_id ` set (clusters y') = ?ids"
          by blast
        have "fold ?step (c' # L) (Some y) = Some y'"
          using y1(1) y'(1) by simp
        moreover from y1(2) y'(2) have "set (discardedClusters y) \<subseteq> set (discardedClusters y')"
          by blast
        ultimately show ?case using y'(3) by blast
      qed
      have L: "\<forall>c' \<in> set (walkNext st x c). cluster_id c' \<in> ?ids"
        by (auto dest: ids_walkNext)
      have i1: "cluster_id ` set (clusters ?x1) = ?ids" by (simp add: ids_walkClusters)
      have c1': "card (?ids - set (discardedClusters ?x1)) < fuel" using c1 by simp
      from loop [OF L i1 c1'] obtain y' where y':
        "fold ?step (walkNext st x c) (Some ?x1) = Some y'"
        "set (discardedClusters ?x1) \<subseteq> set (discardedClusters y')"
        "cluster_id ` set (clusters y') = ?ids"
        by blast
      from y'(2) have "set (discardedClusters x) \<subseteq> set (discardedClusters y')" by simp
      with res y'(1,3) show ?thesis by (simp only:) blast
    qed
  qed
qed

lemma extractClusters_returns: "\<exists>st'. extractClusters st cond data = Some st'"
proof (cases "cond = []")
  case True
  then show ?thesis by (simp add: extractClusters_def)
next
  case False
  let ?x0 = "\<lparr> clusters = cond, selectedClusters = [], discardedClusters = [] \<rparr>"
  from False have a: "cluster_id (cond ! 0) \<in> cluster_id ` set (clusters ?x0)"
    by (cases cond) auto
  have "card (cluster_id ` set cond) \<le> card (set cond)" by (rule card_image_le) simp
  also have "\<dots> \<le> length cond" by (rule card_length)
  finally have b: "card (cluster_id ` set (clusters ?x0) - set (discardedClusters ?x0)) < length cond + 1"
    by simp
  from processCluster_returns [OF a b, of st] obtain x' where
    "processCluster (length cond + 1) st (cond ! 0) ?x0 = Some x'" by blast
  with False show ?thesis
    by (simp add: extractClusters_def Let_def del: processCluster.simps)
qed

section \<open>The links of the hierarchy\<close>

lemma hInv_ids: "hInv n mcs b es h \<Longrightarrow> j < length h \<Longrightarrow> k < length h \<Longrightarrow>
   cluster_id (h ! j) = cluster_id (h ! k) \<Longrightarrow> j = k"
  by (auto simp: hInv_def)


lemma kid_props:
  assumes inv: "hInv n mcs b es h" and k: "kid mcs h j a"
  shows "j < a" "Suc a < length h" "memb h a \<subset> memb h j" "memb h (Suc a) \<subset> memb h j"
    "nle (distance (h ! a)) (distance (h ! j))" "nle (distance (h ! Suc a)) (distance (h ! j))"
proof -
  from k show b: "j < a" "Suc a < length h" by (auto simp: kid_def)
  from k have u: "memb h a \<union> memb h (Suc a) = memb h j" "memb h a \<inter> memb h (Suc a) = {}"
    by (auto simp: kid_def)
  from inv b have "children (h ! a) \<noteq> []" "children (h ! Suc a) \<noteq> []"
    by (auto simp: hInv_def)
  then have ne: "memb h a \<noteq> {}" "memb h (Suc a) \<noteq> {}" by (simp_all add: memb_def)
  from u ne show "memb h a \<subset> memb h j" by blast
  from u ne show "memb h (Suc a) \<subset> memb h j" by blast
  from k show "nle (distance (h ! a)) (distance (h ! j))"
    "nle (distance (h ! Suc a)) (distance (h ! j))"
    by (auto simp: kid_def)
qed

lemma anc_props:
  assumes inv: "hInv n mcs b es h"
  shows "anc mcs h j k \<Longrightarrow> j < k \<and> k < length h \<and> memb h k \<subset> memb h j
           \<and> nle (distance (h ! k)) (distance (h ! j))"
proof (induction rule: anc.induct)
  case (anc_kid j a k)
  from kid_props [OF inv anc_kid(1)] anc_kid(2) show ?case by auto
next
  case (anc_step j k a k')
  from kid_props [OF inv anc_step(2)] anc_step(3)
  have s: "k < k'" "k' < length h" "memb h k' \<subset> memb h k"
    "nle (distance (h ! k')) (distance (h ! k))"
    by auto
  from anc_step.IH have t: "j < k" "k < length h" "memb h k \<subset> memb h j"
    "nle (distance (h ! k)) (distance (h ! j))"
    by auto
  from inv s t have "ltInf (distance (h ! k'))" "ltInf (distance (h ! k))" "ltInf (distance (h ! j))"
    by (auto simp: hInv_def)
  from nle_trans_w [OF this s(4) t(4)] s t show ?case by auto
qed

lemma hInv_length: "hInv n mcs b es h \<Longrightarrow> j < length h \<Longrightarrow>
   length (children (h ! j)) = card (memb h j)"
  by (simp add: hInv_def memb_def distinct_card)

lemma kid_link:
  assumes k: "kid mcs h j a" and c: "k' = a \<or> k' = Suc a"
    and big: "mcs \<le> int (length (children (h ! k')))"
  shows "leftChild (h ! j) = Some (cluster_id (h ! k')) \<or> rightChild (h ! j) = Some (cluster_id (h ! k'))"
  using k c big by (auto simp: kid_def)

lemma anc_descendant:
  assumes inv: "hInv n mcs b es h"
  shows "anc mcs h j k \<Longrightarrow> mcs \<le> int (length (children (h ! k))) \<Longrightarrow> descendant h (h ! j) (h ! k)"
proof (induction rule: anc.induct)
  case (anc_kid j a k)
  from kid_props [OF inv anc_kid(1)] anc_kid(2) have "j < length h" "k < length h" by auto
  then have "h ! j \<in> set h" "h ! k \<in> set h" by simp_all
  from this kid_link [OF anc_kid(1,2,3)] show ?case by (rule desc_child)
next
  case (anc_step j k a k')
  from kid_props [OF inv anc_step(2)] anc_step(3)
  have s: "k < length h" "k' < length h" "memb h k' \<subseteq> memb h k" by auto
  then have "card (memb h k') \<le> card (memb h k)"
    by (intro card_mono) (simp_all add: memb_def)
  with hInv_length [OF inv s(1)] hInv_length [OF inv s(2)] anc_step.prems
  have "mcs \<le> int (length (children (h ! k)))" by simp
  from anc_step.IH [OF this] have d: "descendant h (h ! j) (h ! k)" .
  from s have "h ! k' \<in> set h" by simp
  from d this kid_link [OF anc_step(2,3) anc_step.prems] show ?case by (rule desc_step)
qed

lemma link_anc:
  assumes inv: "hInv n mcs b es h" and j: "j < length h" and d: "d \<in> set h"
    and l: "leftChild (h ! j) = Some (cluster_id d) \<or> rightChild (h ! j) = Some (cluster_id d)"
  shows "\<exists>k<length h. d = h ! k \<and> anc mcs h j k"
proof -
  from inv j have "leaf h j \<or> (\<exists>a. kid mcs h j a)" by (auto simp: hInv_def)
  with l obtain a where a: "kid mcs h j a" by (auto simp: leaf_def)
  from kid_props [OF inv a] have b: "a < length h" "Suc a < length h" by auto
  from d obtain k where k: "k < length h" "d = h ! k" by (auto simp: in_set_conv_nth)
  from a l have "cluster_id d = cluster_id (h ! a) \<or> cluster_id d = cluster_id (h ! Suc a)"
    by (auto simp: kid_def split: if_splits)
  with k hInv_ids [OF inv k(1) b(1)] hInv_ids [OF inv k(1) b(2)] have "k = a \<or> k = Suc a" by auto
  with a have "anc mcs h j k" by (rule anc_kid)
  with k show ?thesis by blast
qed

lemma descendant_anc:
  assumes inv: "hInv n mcs b es h"
  shows "descendant h c d \<Longrightarrow> \<exists>j k. j < length h \<and> k < length h \<and> c = h ! j \<and> d = h ! k \<and> anc mcs h j k"
proof (induction rule: descendant.induct)
  case (desc_child c d)
  from desc_child(1) obtain j where j: "j < length h" "c = h ! j" by (auto simp: in_set_conv_nth)
  from link_anc [OF inv j(1) desc_child(2)] desc_child(3) j(2) obtain k where
    "k < length h" "d = h ! k" "anc mcs h j k" by auto
  with j show ?case by blast
next
  case (desc_step c d d')
  then obtain j k where jk: "j < length h" "k < length h" "c = h ! j" "d = h ! k" "anc mcs h j k"
    by blast
  from link_anc [OF inv jk(2) desc_step(2)] desc_step(3) jk(4) obtain k' where
    k': "k' < length h" "d' = h ! k'" "anc mcs h k k'" by auto
  have "anc mcs h j k'"
    using k'(3) jk(5)
  proof (induction rule: anc.induct)
    case (anc_kid k a k')
    from anc_kid(3) anc_kid(1,2) show ?case by (rule anc.anc_step)
  next
    case (anc_step k m a m')
    from anc_step.IH [OF anc_step.prems] anc_step(2,3) show ?case by (rule anc.anc_step)
  qed
  with jk k' show ?case by blast
qed

text \<open>
  In a hierarchy that satisfies the invariant, the filter applied to a condensed
  cluster returns the condensed clusters that descend from it.
\<close>

lemma filter_descendants:
  assumes inv: "hInv n mcs b [] h" and cond: "cond = filter (\<lambda>c. mcs \<le> int (length (getClusterPoints c))) h"
    and c: "c \<in> set cond"
  shows "set (childClustersOf cond c) = {d \<in> set cond. descendant h c d}"
proof (intro equalityI subsetI)
  fix d assume "d \<in> set (childClustersOf cond c)"
  then have d: "d \<in> set cond" and ne: "cluster_id d \<noteq> cluster_id c"
    and sub: "set (children d) \<subseteq> set (children c)"
    by (auto simp: childClustersOf_def list_all_iff)
  from c cond obtain jc where jc: "jc < length h" "c = h ! jc" by (auto simp: in_set_conv_nth)
  from d cond obtain jd where jd: "jd < length h" "d = h ! jd" by (auto simp: in_set_conv_nth)
  from ne jc jd have nj: "jc \<noteq> jd" by auto
  from inv jd have "children d \<noteq> []" by (auto simp: hInv_def)
  with sub jc jd have meet: "memb h jc \<inter> memb h jd \<noteq> {}"
    by (cases "children d") (auto simp: memb_def)
  from inv have lam: "\<And>j k. j < k \<Longrightarrow> k < length h \<Longrightarrow> memb h j \<inter> memb h k = {} \<or> anc mcs h j k"
    by (auto simp: hInv_def)
  have a: "anc mcs h jc jd"
  proof (cases "jc < jd")
    case True
    from lam [OF True jd(1)] meet show ?thesis by blast
  next
    case False
    with nj have lt: "jd < jc" by simp
    from lam [OF lt jc(1)] meet have "anc mcs h jd jc" by blast
    from anc_props [OF inv this] have "memb h jc \<subset> memb h jd" by simp
    with sub jc jd show ?thesis by (auto simp: memb_def)
  qed
  from d cond jd have "mcs \<le> int (length (getClusterPoints (h ! jd)))" by simp
  moreover have "length (getClusterPoints (h ! jd)) = length (children (h ! jd))"
    using inv jd(1) by (simp add: getClusterPoints_def hInv_def distinct_remdups_id)
  ultimately have "mcs \<le> int (length (children (h ! jd)))" by simp
  from anc_descendant [OF inv a this] jc jd d show "d \<in> {d \<in> set cond. descendant h c d}"
    by simp
next
  fix d assume "d \<in> {d \<in> set cond. descendant h c d}"
  then have d: "d \<in> set cond" and de: "descendant h c d" by auto
  from descendant_anc [OF inv de] obtain j k where jk: "j < length h" "k < length h"
    "c = h ! j" "d = h ! k" "anc mcs h j k" by blast
  from anc_props [OF inv jk(5)] have p: "j < k" "memb h k \<subset> memb h j"
    "nle (distance (h ! k)) (distance (h ! j))" by auto
  from p(1) inv jk have "cluster_id d \<noteq> cluster_id c" by (auto simp: hInv_def)
  moreover from p(2) jk have "list_all (\<lambda>p. p \<in> set (children c)) (children d)"
    by (auto simp: memb_def list_all_iff)
  ultimately show "d \<in> set (childClustersOf cond c)"
    using d p(3) jk by (simp add: childClustersOf_def)
qed

section \<open>The spanning tree of any matrix\<close>

lemma nlt_ltInf: "nlt a b \<Longrightarrow> ltInf a"
  by (cases a; cases b) auto

lemma scan_prefix:
  "case foldl (scanStep visited minEdges) (PInf, None) [0..<k] of
     (m, None) \<Rightarrow> True
   | (m, Some v) \<Rightarrow> v < k \<and> v \<notin> set visited \<and> m = minEdges ! v \<and> ltInf m"
proof (induction k)
  case 0
  show ?case by simp
next
  case (Suc k)
  obtain m nv where F: "foldl (scanStep visited minEdges) (PInf, None) [0..<k] = (m, nv)"
    by (cases "foldl (scanStep visited minEdges) (PInf, None) [0..<k]") auto
  show ?case
  proof (cases "k \<notin> set visited \<and> nlt (minEdges ! k) m")
    case True
    then have "foldl (scanStep visited minEdges) (PInf, None) [0..<Suc k] = (minEdges ! k, Some k)"
      by (simp add: F scanStep_pair)
    with True nlt_ltInf [of "minEdges ! k" m] show ?thesis by simp
  next
    case False
    then have "foldl (scanStep visited minEdges) (PInf, None) [0..<Suc k] = (m, nv)"
      by (auto simp: F scanStep_pair)
    with Suc F show ?thesis by (cases nv) (auto simp: less_Suc_eq)
  qed
qed

lemma findNext_gen:
  assumes "findNext n visited minEdges = (w, Some v)"
  shows "v < n \<and> v \<notin> set visited \<and> w = minEdges ! v \<and> ltInf w"
  using scan_prefix [where visited = visited and minEdges = minEdges and k = n] assms
  by (auto simp: findNext_eq)

lemma relax_connInv:
  assumes inv: "connInv n visited me c" and v: "v < n" "v \<notin> set visited"
  shows "connInv n (visited @ [v]) (fst (relax d n v (visited @ [v]) (me, c)))
           (snd (relax d n v (visited @ [v]) (me, c)))"
proof -
  let ?vis = "visited @ [v]"
  from inv have l: "length me = n" "length c = n" by (auto simp: connInv_def)
  from relax_prefix [OF l, of n d v ?vis]
  obtain me' c' where F: "relax d n v ?vis (me, c) = (me', c')"
    and l': "length me' = n" "length c' = n"
    and p: "\<forall>i<n. c' ! i = (if i \<notin> set ?vis \<and> nlt (cell d v i) (me ! i) then v else c ! i)"
    by (auto simp: relax_eq)
  from inv have old: "\<forall>u<n. c ! u \<in> set visited" by (simp add: connInv_def)
  have "\<forall>u<n. c' ! u \<in> set ?vis"
  proof (intro allI impI)
    fix u assume u: "u < n"
    with p have "c' ! u = v \<or> c' ! u = c ! u" by auto
    with old u show "c' ! u \<in> set ?vis" by auto
  qed
  with inv l' v show ?thesis
    by (auto simp: connInv_def F)
qed

lemma primLoop_tree:
  "connInv n visited me c \<Longrightarrow> primLoop d n visited me c edges = Some out \<Longrightarrow>
   \<exists>es. out = edges @ es \<and> length es = n - length visited \<and> primTree visited es
        \<and> (\<forall>e \<in> set es. fst e < n \<and> dstOf e < n \<and> ltInf (wOf e))"
proof (induction "n - length visited" arbitrary: visited me c edges)
  case 0
  then have ge: "n \<le> length visited" by simp
  then have "primLoop d n visited me c edges = Some edges"
    by (subst primLoop.simps) simp
  with "0.prems"(2) ge show ?case by simp
next
  case (Suc k)
  then have lt: "length visited < n" by simp
  note inv = Suc.prems(1)
  obtain w nv where fn: "findNext n visited me = (w, nv)"
    by (cases "findNext n visited me") auto
  from Suc.prems(2) lt fn obtain v where nv: "nv = Some v"
    by (subst (asm) primLoop.simps) (cases nv, auto)
  from findNext_gen [OF fn [unfolded nv]]
  have v: "v < n" "v \<notin> set visited" and w: "w = me ! v" "ltInf w" by auto
  let ?vis = "visited @ [v]"
  let ?mc = "relax d n v ?vis (me, c)"
  have inv': "connInv n ?vis (fst ?mc) (snd ?mc)"
    by (rule relax_connInv [OF inv v])
  have k: "k = n - length ?vis" using Suc.hyps(2) by simp
  have step: "primLoop d n visited me c edges
                = primLoop d n ?vis (fst ?mc) (snd ?mc) (edges @ [(c ! v, v, w)])"
    using lt fn nv by (subst primLoop.simps) (simp add: Let_def)
  with Suc.prems(2)
  have "primLoop d n ?vis (fst ?mc) (snd ?mc) (edges @ [(c ! v, v, w)]) = Some out" by simp
  from Suc.hyps(1) [OF k inv' this]
  obtain es where es: "out = (edges @ [(c ! v, v, w)]) @ es" "length es = n - length ?vis"
     "primTree ?vis es" "\<forall>e \<in> set es. fst e < n \<and> dstOf e < n \<and> ltInf (wOf e)"
    by blast
  from inv v have cv: "c ! v \<in> set visited" "c ! v < n"
    by (auto simp: connInv_def)
  have "primTree visited ((c ! v, v, w) # es)"
    using v cv(1) es(3) by simp
  moreover have "\<forall>e \<in> set ((c ! v, v, w) # es). fst e < n \<and> dstOf e < n \<and> ltInf (wOf e)"
    using es(4) v cv w by (simp add: dstOf_def wOf_def)
  moreover have "length ((c ! v, v, w) # es) = n - length visited"
    using es(2) lt by simp
  ultimately show ?case using es(1)
    by (intro exI [of _ "(c ! v, v, w) # es"]) simp
qed

lemma buildMinimumSpanningTree_tree:
  assumes n: "1 \<le> length d" and r: "buildMinimumSpanningTree d = Some mst"
  shows "length mst = length d - 1 \<and> primTree [0] mst
         \<and> (\<forall>e \<in> set mst. fst e < length d \<and> dstOf e < length d \<and> ltInf (wOf e))"
proof -
  let ?n = "length d"
  let ?me = "map (\<lambda>i. if i = 0 then PInf else cell d 0 i) [0..<?n]"
  from n have inv: "connInv ?n [0] ?me (replicate ?n 0)"
    by (auto simp: connInv_def)
  from r have "primLoop d ?n [0] ?me (replicate ?n 0) [] = Some mst"
    by (simp add: buildMinimumSpanningTree_def Let_def)
  from primLoop_tree [OF inv this] show ?thesis by simp
qed

lemma buildMinimumSpanningTree_small:
  "length d < 2 \<Longrightarrow> buildMinimumSpanningTree d = Some []"
  by (simp add: buildMinimumSpanningTree_def Let_def) (subst primLoop.simps, simp)

section \<open>The steps after the matrix\<close>

text \<open>
  Whatever the matrix holds (finite numbers, infinities or \<open>NaN\<close>): when the spanning
  tree is returned, the hierarchy is built without an error and satisfies the invariant.
\<close>

lemma hierarchy_of_tree:
  assumes n: "2 \<le> length M" and r: "buildMinimumSpanningTree M = Some mst"
  shows "\<exists>h st'. buildClusterHierarchy (st\<lparr> sortedEdges := mst \<rparr>) mst = Inr (h, st')
          \<and> hInv (length M) (minClusterSize st) (nextClusterId st) [] h
          \<and> minClusterSize st' = minClusterSize st"
proof -
  from n have "1 \<le> length M" by simp
  from buildMinimumSpanningTree_tree [OF this r]
  have len: "length mst = length M - 1" and pt: "primTree [0] mst"
    and bnd: "\<forall>e \<in> set mst. fst e < length M \<and> dstOf e < length M \<and> ltInf (wOf e)"
    by auto
  from len n have ne: "mst \<noteq> []" by auto
  from len n have l: "length M = length mst + 1" by simp
  have se: "length (sortedEdges (st\<lparr> sortedEdges := mst \<rparr>)) = length mst" by simp
  from buildClusterHierarchy_inv [OF pt bnd ne l se] show ?thesis by auto
qed

lemma buildClusterHierarchy_Nil: "buildClusterHierarchy st [] = Inl TypeError"
  by (simp add: buildClusterHierarchy_def)



lemma fit_fitFrom:
  "fit st data =
     (case computeMutualReachabilityDistance st data of
        Inl e \<Rightarrow> Some (Inl e) | Inr M \<Rightarrow> fitFrom st M data)"
  by (simp add: fit_def fitFrom_def split: sum.splits option.splits)

lemma fitFrom_no_error:
  assumes "2 \<le> length M"
  shows "fitFrom st M data \<noteq> Some (Inl e)"
proof (cases "buildMinimumSpanningTree M")
  case None
  then show ?thesis by (simp add: fitFrom_def)
next
  case (Some mst)
  from hierarchy_of_tree [OF assms Some, of st] obtain h st' where
    "buildClusterHierarchy (st\<lparr> sortedEdges := mst \<rparr>) mst = Inr (h, st')" by blast
  with Some show ?thesis
    by (simp add: fitFrom_def split: option.splits)
qed

lemma fitFrom_returns:
  assumes fm: "finiteMatrix M" and n: "2 \<le> length M"
  shows "\<exists>labels st'. fitFrom st M data = Some (Inr (labels, st'))"
proof -
  have "\<And>u. u < length M \<Longrightarrow> cell M 0 u = Fin (wt M 0 u)"
    using fm n by (intro cell_wt) auto
  then have "primInv M [0] (map (\<lambda>i. if i = 0 then PInf else cell M 0 i) [0..<length M])
               (replicate (length M) 0)"
    using fm n by (auto simp: primInv_def)
  from primLoop_correct [OF fm this, of "[]"] obtain mst where
    mst: "buildMinimumSpanningTree M = Some mst"
    by (auto simp: buildMinimumSpanningTree_def Let_def)
  from hierarchy_of_tree [OF n mst, of st] obtain h st1 where
    h: "buildClusterHierarchy (st\<lparr> sortedEdges := mst \<rparr>) mst = Inr (h, st1)" by blast
  from extractClusters_returns obtain st2 where
    "extractClusters st1 (condenseHierarchy st1 h) data = Some st2" by blast
  with mst h show ?thesis by (simp add: fitFrom_def)
qed


lemma collect_Inl: "collect rs = Inl e \<Longrightarrow> Inl e \<in> set rs"
  by (induction rs rule: collect.induct) (auto split: sum.splits)

lemma computeMutualReachabilityDistance_error:
  assumes "computeMutualReachabilityDistance st data = Inl e"
  shows "e = TypeError"
proof -
  from assms have "collect (map (coreDistance (minSamples st) data) [0..<length data]) = Inl e"
    by (simp add: computeMutualReachabilityDistance_def Let_def split: sum.splits)
  from collect_Inl [OF this] obtain i where "coreDistance (minSamples st) data i = Inl e"
    by auto
  then show ?thesis
    by (simp add: coreDistance_def Let_def split: if_splits)
qed

lemma fitFrom_internal:
  assumes "internalError e"
  shows "fitFrom st M data \<noteq> Some (Inl e)"
proof (cases "2 \<le> length M")
  case True
  then show ?thesis by (rule fitFrom_no_error)
next
  case False
  then have "buildMinimumSpanningTree M = Some []"
    by (intro buildMinimumSpanningTree_small) simp
  then have "fitFrom st M data = Some (Inl TypeError)"
    by (simp add: fitFrom_def buildClusterHierarchy_Nil)
  with assms show ?thesis by (auto simp: internalError_def)
qed

text \<open>
  Claim C10. \<open>fit\<close> never throws one of the three internal errors, on any instance and
  any data. It is the first step followed by the steps after the matrix, and the first
  step throws none of them. The steps after the matrix throw none of them whatever the
  matrix holds: finite weights, infinities or \<open>NaN\<close>, as the arithmetic of the first
  step made them. For a matrix over at least two points, whenever the spanning tree is
  returned the builder returns the hierarchy: \<open>findClusterContainingPoints\<close> finds a
  cluster for every edge, \<open>find\<close> is called within the parent array, and every split
  gives two components.
\<close>

theorem fit_raises_no_internal_error:
  assumes "internalError e"
  shows "fit st data \<noteq> Some (Inl e)
         \<and> fit st data =
             (case computeMutualReachabilityDistance st data of
                Inl e' \<Rightarrow> Some (Inl e') | Inr M' \<Rightarrow> fitFrom st M' data)
         \<and> fitFrom st M data \<noteq> Some (Inl e)
         \<and> (2 \<le> length M \<and> buildMinimumSpanningTree M = Some mst \<longrightarrow>
               (\<exists>h st'. buildClusterHierarchy (st\<lparr> sortedEdges := mst \<rparr>) mst = Inr (h, st')))"
proof -
  have a: "fit st data \<noteq> Some (Inl e)"
  proof (cases "computeMutualReachabilityDistance st data")
    case (Inl e')
    from computeMutualReachabilityDistance_error [OF this] Inl assms show ?thesis
      by (auto simp: fit_fitFrom internalError_def)
  next
    case (Inr M')
    with fitFrom_internal [OF assms, of st M' data] show ?thesis
      by (simp add: fit_fitFrom)
  qed
  have c: "2 \<le> length M \<and> buildMinimumSpanningTree M = Some mst \<longrightarrow>
               (\<exists>h st'. buildClusterHierarchy (st\<lparr> sortedEdges := mst \<rparr>) mst = Inr (h, st'))"
  proof
    assume "2 \<le> length M \<and> buildMinimumSpanningTree M = Some mst"
    then have "2 \<le> length M" "buildMinimumSpanningTree M = Some mst" by simp_all
    from hierarchy_of_tree [OF this, of st]
    show "\<exists>h st'. buildClusterHierarchy (st\<lparr> sortedEdges := mst \<rparr>) mst = Inr (h, st')"
      by blast
  qed
  from a fit_fitFrom [of st data] fitFrom_internal [OF assms, of st M data] c
  show ?thesis by blast
qed


section \<open>Evaluations\<close>

text \<open>
  Claim C1. \<open>euclideanDistance\<close> returns the sum of the squared coordinate differences
  and takes no square root: for the points \<open>(0, 0)\<close> and \<open>(3, 4)\<close> it returns \<open>25\<close>,
  while their Euclidean distance is \<open>5\<close>; the matrix of the two points with
  \<open>minSamples = 1\<close> holds \<open>25\<close> in every entry.
\<close>

theorem euclideanDistance_is_squared:
  "euclideanDistance [0, 0] [3, 4] = Fin 25
   \<and> sqrt ((0 - 3)\<^sup>2 + (0 - 4)\<^sup>2) = 5
   \<and> computeMutualReachabilityDistance (instance0 5 1) [[0, 0], [3, 4]]
       = Inr [[Fin 25, Fin 25], [Fin 25, Fin 25]]"
proof -
  have "sqrt 25 = sqrt (5\<^sup>2)" by simp
  then have s: "sqrt ((0 - 3)\<^sup>2 + (0 - 4)\<^sup>2) = 5"
    by (simp del: real_sqrt_eq_iff)
  have e: "euclideanDistance [0, 0] [3, 4] = Fin 25"
    by code_simp
  have m: "computeMutualReachabilityDistance (instance0 5 1) [[0, 0], [3, 4]]
             = Inr [[Fin 25, Fin 25], [Fin 25, Fin 25]]"
    by code_simp
  from s e m show ?thesis by blast
qed

text \<open>
  Claim C2. The id counter of the instance is not reset by \<open>fit\<close>, and the root is
  recognised by the id \<open>0\<close>. On the five points \<open>0, 1, 2, 10, 11\<close> of the line with
  \<open>minClusterSize = 3\<close> and \<open>minSamples = 1\<close> the first call labels the last two points
  as noise; the second call on the same instance selects the root and labels all five
  points \<open>0\<close>.
\<close>

theorem fit_twice_differs:
  "fitTwice (instance0 3 1) [[0], [1], [2], [10], [11]]
     = Some (([0, 0, 0, - 1, - 1], [Fin (63 / 64), Fin (63 / 64), Fin (63 / 64), Fin 0, Fin 0]),
             ([0, 0, 0, 0, 0],
              [Fin (63 / 64), Fin (63 / 64), Fin (63 / 64), Fin (63 / 64), Fin (63 / 64)]))"
  by code_simp

text \<open>
  Claim C3. The membership \<open>1 - min_reach / maxEdgeWeight\<close> is not clamped. On three
  equal points with \<open>minClusterSize = 3\<close> every weight is \<open>0\<close>, the root is selected,
  and the probability of each point is \<open>0 / 0\<close> taken from \<open>1\<close>, which is \<open>NaN\<close> and
  lies in no interval.
\<close>

theorem probabilities_NaN:
  "fitOutputs (instance0 3 3) [[0], [0], [0]] = Some (Inr ([0, 0, 0], [NaN, NaN, NaN]))
   \<and> \<not> nle (Fin 0) NaN \<and> \<not> nle NaN (Fin 1)"
proof -
  have "fitOutputs (instance0 3 3) [[0], [0], [0]] = Some (Inr ([0, 0, 0], [NaN, NaN, NaN]))"
    by code_simp
  then show ?thesis by simp
qed

text \<open>
  Claim C4. \<open>calculateClusterStability\<close> has no case for a \<open>leaveEdgeWeight\<close> of \<open>0\<close>. On
  the four points \<open>0, 0, 5, 5\<close> with \<open>minClusterSize = 2\<close> and \<open>minSamples = 1\<close> the two
  pairs of equal points are the clusters \<open>1\<close> and \<open>2\<close>, with \<open>leaveEdgeWeight = 0\<close> and
  \<open>birthDistance = 25\<close>, and the stability that the walk computes and stores for each of
  them is \<open>1 / 0 - 1 / 25\<close> times \<open>2\<close>, which is \<open>+Infinity\<close> and not \<open>0\<close>. On three equal
  points with \<open>minClusterSize = 2\<close> the cluster \<open>1\<close> has both weights \<open>0\<close> and its
  stability is \<open>NaN\<close>.
\<close>

theorem stability_of_zero_weight:
  "map_option (\<lambda>x. map (\<lambda>c. (cluster_id c, children c, leaveEdgeWeight c, birthDistance c,
                               stability c)) (clusters x))
     (walkOf (instance0 2 1) [[0], [0], [5], [5]])
   = Some [(0, [0, 1, 2, 3], Fin 0, Fin 25, Some (Fin 0)),
           (1, [0, 1], Fin 0, Fin 25, Some PInf),
           (2, [2, 3], Fin 0, Fin 25, Some PInf)]
   \<and> map_option (\<lambda>x. map (\<lambda>c. (cluster_id c, children c, leaveEdgeWeight c, birthDistance c,
                               stability c)) (clusters x))
     (walkOf (instance0 2 2) [[0], [0], [0]])
   = Some [(0, [0, 1, 2], Fin 0, Fin 0, Some (Fin 0)),
           (1, [0, 2], Fin 0, Fin 0, Some NaN)]"
  by code_simp


text \<open>
  Claim C7. The filter of \<open>processCluster\<close> has no test for direct parenthood. On the
  five points \<open>0, 1, 2, 10, 11\<close> with \<open>minClusterSize = 2\<close> the condensed hierarchy is
  the root \<open>0\<close>, its children \<open>1\<close> and \<open>2\<close>, and the cluster \<open>4\<close>, which is the right
  child of cluster \<open>1\<close>. The filter applied to the root returns the clusters \<open>1\<close>, \<open>2\<close>
  and \<open>4\<close>: the grandchild is among them, and its stability is added to the sum that
  is compared with the stability of the root.
\<close>

theorem filter_returns_grandchild:
  "map (\<lambda>c. (cluster_id c, children c, leftChild c, rightChild c))
     (condensedOf (instance0 2 1) [[0], [1], [2], [10], [11]])
   = [(0, [0, 1, 2, 3, 4], Some 1, Some 2), (1, [0, 1, 2], None, Some 4),
      (2, [3, 4], None, None), (4, [1, 2], None, None)]
   \<and> map cluster_id
        (childClustersOf (condensedOf (instance0 2 1) [[0], [1], [2], [10], [11]])
           (condensedOf (instance0 2 1) [[0], [1], [2], [10], [11]] ! 0))
     = [1, 2, 4]"
  by code_simp

text \<open>
  Claim C5. For a single point the list of neighbour distances is empty, the index
  \<open>Math.min(minSamples - 1, -1)\<close> is negative whatever \<open>minSamples\<close> is, and reading
  \<open>distance\<close> of the missing element throws: neither the matrix nor the labels are
  returned.
\<close>

theorem single_point_throws:
  "computeMutualReachabilityDistance st [p] = Inl TypeError
   \<and> fit st [p] = Some (Inl TypeError)"
proof -
  have "coreDistance (minSamples st) [p] 0 = Inl TypeError"
    by (simp add: coreDistance_def pointDistances_def)
  then have "computeMutualReachabilityDistance st [p] = Inl TypeError"
    by (simp add: computeMutualReachabilityDistance_def)
  then show ?thesis
    by (simp add: fit_def)
qed


text \<open>
  The run on three points at equal distances: both edges start at vertex \<open>0\<close>, and
  vertex \<open>1\<close> is taken before vertex \<open>2\<close>.
\<close>

theorem buildMinimumSpanningTree_prim_witness:
  "finiteMatrix [[Fin 0, Fin 1, Fin 1], [Fin 1, Fin 0, Fin 1], [Fin 1, Fin 1, Fin 0]]
   \<and> buildMinimumSpanningTree [[Fin 0, Fin 1, Fin 1], [Fin 1, Fin 0, Fin 1], [Fin 1, Fin 1, Fin 0]]
       = Some [(0, 1, Fin 1), (0, 2, Fin 1)]
   \<and> primTrace [[Fin 0, Fin 1, Fin 1], [Fin 1, Fin 0, Fin 1], [Fin 1, Fin 1, Fin 0]] [0]
       [(0, 1, Fin 1), (0, 2, Fin 1)]"
proof -
  let ?d = "[[Fin 0, Fin 1, Fin 1], [Fin 1, Fin 0, Fin 1], [Fin 1, Fin 1, Fin 0]]"
  have fm: "finiteMatrix ?d"
    by (simp add: finiteMatrix_def)
  have ev: "buildMinimumSpanningTree ?d = Some [(0, 1, Fin 1), (0, 2, Fin 1)]"
    by code_simp
  from buildMinimumSpanningTree_prim [OF fm] ev
  have "primTrace ?d [0] [(0, 1, Fin 1), (0, 2, Fin 1)]"
    by simp
  with fm ev show ?thesis by blast
qed

text \<open>
  Three points with \<open>minClusterSize = 2\<close> and \<open>minSamples = 1\<close>. On a matrix that holds
  \<open>Infinity\<close> and \<open>NaN\<close> where the loop of the spanning tree never takes them as a
  minimum, the tree is returned, the builder returns the hierarchy and the labels are
  returned; on a matrix whose only weight is \<open>Infinity\<close> the loop never ends. \<open>fit\<close> on
  the points \<open>0, 1, 5\<close> returns its labels.
\<close>

theorem fit_raises_no_internal_error_witness:
  "internalError SplitComponents
   \<and> buildMinimumSpanningTree [[Fin 0, Fin 1, Fin 1], [Fin 1, Fin 0, PInf], [Fin 1, NaN, Fin 0]]
       = Some [(0, 1, Fin 1), (0, 2, Fin 1)]
   \<and> (\<exists>h st'. buildClusterHierarchy
                ((instance0 2 1)\<lparr> sortedEdges := [(0, 1, Fin 1), (0, 2, Fin 1)] \<rparr>)
                [(0, 1, Fin 1), (0, 2, Fin 1)] = Inr (h, st'))
   \<and> (\<exists>st'. fitFrom (instance0 2 1)
              [[Fin 0, Fin 1, Fin 1], [Fin 1, Fin 0, PInf], [Fin 1, NaN, Fin 0]]
              [[0], [1], [5]] = Some (Inr ([0, - 1, 0], st')))
   \<and> fitFrom (instance0 2 1)
        [[Fin 0, PInf, PInf], [PInf, Fin 0, PInf], [PInf, PInf, Fin 0]] [[0], [1], [5]] = None
   \<and> (\<exists>st'. fit (instance0 2 1) [[0], [1], [5]] = Some (Inr ([0, 0, - 1], st')))"
proof -
  let ?D = "[[0], [1], [5]] :: real list list"
  let ?I = "instance0 2 1"
  let ?M = "[[Fin 0, Fin 1, Fin 1], [Fin 1, Fin 0, PInf], [Fin 1, NaN, Fin 0]]"
  let ?N = "[[Fin 0, PInf, PInf], [PInf, Fin 0, PInf], [PInf, PInf, Fin 0]]"
  let ?t = "[(0, 1, Fin 1), (0, 2, Fin 1)] :: edge list"
  have i: "internalError SplitComponents" by (simp add: internalError_def)
  have m: "buildMinimumSpanningTree ?M = Some ?t" by code_simp
  have n: "2 \<le> length ?M" by simp
  from fit_raises_no_internal_error [OF i, of ?I ?D ?M ?t] n m
  have h: "\<exists>h st'. buildClusterHierarchy (?I\<lparr> sortedEdges := ?t \<rparr>) ?t = Inr (h, st')"
    by blast
  have "map_option (map_sum id fst) (fitFrom ?I ?M ?D) = Some (Inr [0, - 1, 0])"
    by code_simp
  then have b: "\<exists>st'. fitFrom ?I ?M ?D = Some (Inr ([0, - 1, 0], st'))"
    by (cases "fitFrom ?I ?M ?D") (auto simp: map_sum_def split: sum.splits)
  have c: "fitFrom ?I ?N ?D = None" by code_simp
  have "map_option (map_sum id fst) (fit ?I ?D) = Some (Inr [0, 0, - 1])"
    by code_simp
  then have a: "\<exists>st'. fit ?I ?D = Some (Inr ([0, 0, - 1], st'))"
    by (cases "fit ?I ?D") (auto simp: map_sum_def split: sum.splits)
  from i m h b c a show ?thesis by blast
qed


end
